theory Spec2Isabelle
  imports Main
begin

section \<open>Python values\<close>

subsection \<open>Strings\<close>

text \<open>
  A Python \<open>str\<close> is a sequence of Unicode code points: \<open>len\<close>, indexing and slicing
  count code points, so a string is modelled as a list of code point numbers. ASCII
  literals of the source are written \<open>ascii ''...''\<close>.
\<close>

type_synonym str = "nat list"

definition ascii :: "string \<Rightarrow> str" where
  "ascii s = map of_char s"

definition lower_ascii :: "nat \<Rightarrow> nat" where
  "lower_ascii c = (if 65 \<le> c \<and> c \<le> 90 then c + 32 else c)"

text \<open>
  \<open>str.lower()\<close>. On ASCII text it maps \<open>A..Z\<close> to \<open>a..z\<close> and changes nothing else.
  On other text the result is given by the interpreter's Unicode case tables, which are
  not part of the repository: they are the parameter \<open>ul\<close>.
\<close>

definition lower :: "(str \<Rightarrow> str) \<Rightarrow> str \<Rightarrow> str" where
  "lower ul s = (if list_all (\<lambda>c. c < 128) s then map lower_ascii s else ul s)"

text \<open>\<open>s.startswith(p)\<close> and the slice \<open>s[i:j]\<close> for \<open>0 \<le> i \<le> j\<close>.\<close>

definition startswith :: "str \<Rightarrow> str \<Rightarrow> bool" where
  "startswith s p = (take (length p) s = p)"

definition slice :: "nat \<Rightarrow> nat \<Rightarrow> 'a list \<Rightarrow> 'a list" where
  "slice i j xs = take (j - i) (drop i xs)"

subsection \<open>Exceptions\<close>

text \<open>
  Every exception the modelled code can raise is a value; a function that can raise
  returns \<open>error + 'a\<close>, with \<open>Inl\<close> for the exception.
\<close>

datatype error =
    ValueError str
  | KeyError str
  | TypeError
  | AttributeError
  | HTTPError nat
  | ConnectionError
  | JSONDecodeError
  | OpenAIError

section \<open>Prefix router\<close>

text \<open>The character class \<open>[a-zA-Z0-9_-]\<close> of the branch pattern.\<close>

definition word_char :: "nat \<Rightarrow> bool" where
  "word_char c =
     ((97 \<le> c \<and> c \<le> 122) \<or> (65 \<le> c \<and> c \<le> 90) \<or> (48 \<le> c \<and> c \<le> 57) \<or> c = 95 \<or> c = 45)"

text \<open>
  \<open>re.match(r"^([a-zA-Z0-9_-]+)/", branch)\<close>, returning group 1. The greedy \<open>+\<close> first
  takes the longest run of class characters and then gives characters back one at a
  time until a \<open>/\<close> (code point 47) follows; at least one character must remain.
\<close>

definition match_prefix :: "str \<Rightarrow> str option" where
  "match_prefix branch =
     (let n = length (takeWhile word_char branch) in
      case filter (\<lambda>k. k < length branch \<and> branch ! k = 47) (rev [1..<Suc n]) of
        [] \<Rightarrow> None
      | k # _ \<Rightarrow> Some (take k branch))"

definition extract_prefix_from_branch :: "(str \<Rightarrow> str) \<Rightarrow> str \<Rightarrow> str option" where
  "extract_prefix_from_branch ul branch =
     (case match_prefix branch of
        Some g \<Rightarrow> Some (lower ul g)
      | None \<Rightarrow> None)"

text \<open>\<open>str(prefix)\<close> as the f-string of the error message formats it.\<close>

definition str_of_prefix :: "str option \<Rightarrow> str" where
  "str_of_prefix prefix = (case prefix of None \<Rightarrow> ascii ''None'' | Some p \<Rightarrow> p)"

text \<open>
  The mapping is the dictionary loaded from \<open>page_mapping.json\<close>. \<open>if prefix\<close> is
  Python truthiness: \<open>None\<close> and the empty string both fail it.
\<close>

definition get_page_id_for_prefix :: "str option \<Rightarrow> (str \<rightharpoonup> str) \<Rightarrow> error + str" where
  "get_page_id_for_prefix prefix mapping =
     (if prefix \<noteq> None \<and> prefix \<noteq> Some [] \<and> mapping (the prefix) \<noteq> None
        then Inr (the (mapping (the prefix)))
      else if mapping (ascii ''default'') \<noteq> None
        then Inr (the (mapping (ascii ''default'')))
      else Inl (ValueError (ascii ''No mapping found for prefix '' @ [39] @ str_of_prefix prefix
                  @ [39] @ ascii '' and no default page configured.'')))"

section \<open>Page identifier normalizer\<close>

text \<open>\<open>clean_id = page_id.replace("-", "").lower()\<close>; the hyphen is code point 45.\<close>

definition clean_id :: "(str \<Rightarrow> str) \<Rightarrow> str \<Rightarrow> str" where
  "clean_id ul page_id = lower ul (filter (\<lambda>c. c \<noteq> 45) page_id)"

definition format_page_id :: "(str \<Rightarrow> str) \<Rightarrow> str \<Rightarrow> error + str" where
  "format_page_id ul page_id =
     (let c = clean_id ul page_id in
      if length c \<noteq> 32 then Inl (ValueError (ascii ''Invalid page ID length: '' @ page_id))
      else Inr (slice 0 8 c @ [45] @ slice 8 12 c @ [45] @ slice 12 16 c @ [45]
                @ slice 16 20 c @ [45] @ slice 20 32 c))"

text \<open>Hexadecimal digits \<open>0-9\<close>, \<open>a-f\<close>, \<open>A-F\<close>.\<close>

definition is_hex :: "nat \<Rightarrow> bool" where
  "is_hex c = ((48 \<le> c \<and> c \<le> 57) \<or> (97 \<le> c \<and> c \<le> 102) \<or> (65 \<le> c \<and> c \<le> 70))"

text \<open>
  An instance of the case tables for the examples: \<open>U+0130\<close> (capital I with dot above)
  lowercases to the two code points \<open>U+0069 U+0307\<close>, as Unicode's full case mapping
  and CPython's \<open>str.lower\<close> have it.
\<close>

definition lower_full :: "nat \<Rightarrow> str" where
  "lower_full c = (if c = 304 then [105, 775] else [lower_ascii c])"

definition unicode_lower :: "str \<Rightarrow> str" where
  "unicode_lower s = concat (map lower_full s)"

text \<open>The 8-4-4-4-12 grouping of a 32-character identifier.\<close>

definition dashed :: "str \<Rightarrow> str" where
  "dashed c = slice 0 8 c @ [45] @ slice 8 12 c @ [45] @ slice 12 16 c @ [45]
                @ slice 16 20 c @ [45] @ slice 20 32 c"

section \<open>JSON values and the content store\<close>

subsection \<open>JSON values as Python sees them\<close>

text \<open>
  What \<open>r.json()\<close> returns: \<open>None\<close>, a \<open>bool\<close>, a number (modelled by an integer), a
  \<open>str\<close>, a \<open>list\<close> or a \<open>dict\<close> with string keys. A \<open>dict\<close> is the list of its items,
  in insertion order, with distinct keys.
\<close>

datatype json =
    JNull
  | JBool bool
  | JNum int
  | JStr str
  | JArr "json list"
  | JObj "(str \<times> json) list"

text \<open>Truthiness, as \<open>if v\<close>, \<open>while v\<close> and \<open>not v\<close> test it.\<close>

fun truthy :: "json \<Rightarrow> bool" where
  "truthy JNull = False"
| "truthy (JBool b) = b"
| "truthy (JNum n) = (n \<noteq> 0)"
| "truthy (JStr s) = (s \<noteq> [])"
| "truthy (JArr xs) = (xs \<noteq> [])"
| "truthy (JObj kvs) = (kvs \<noteq> [])"

text \<open>
  \<open>d.get(k, default)\<close> for a string key: only a \<open>dict\<close> has the method, any other value
  raises \<open>AttributeError\<close>.
\<close>

definition dict_get :: "json \<Rightarrow> str \<Rightarrow> json \<Rightarrow> error + json" where
  "dict_get d k dflt =
     (case d of
        JObj kvs \<Rightarrow> Inr (case map_of kvs k of Some v \<Rightarrow> v | None \<Rightarrow> dflt)
      | _ \<Rightarrow> Inl AttributeError)"

text \<open>
  \<open>d.get(key, default)\<close> where the key is itself a value read from JSON: a list or a
  \<open>dict\<close> is unhashable (\<open>TypeError\<close>); a number, a \<open>bool\<close> or \<open>None\<close> is hashable and
  equals none of the string keys.
\<close>

definition dict_get_value :: "json \<Rightarrow> json \<Rightarrow> json \<Rightarrow> error + json" where
  "dict_get_value d key dflt =
     (case d of
        JObj kvs \<Rightarrow>
          (case key of
             JStr k \<Rightarrow> Inr (case map_of kvs k of Some v \<Rightarrow> v | None \<Rightarrow> dflt)
           | JArr _ \<Rightarrow> Inl TypeError
           | JObj _ \<Rightarrow> Inl TypeError
           | _ \<Rightarrow> Inr dflt)
      | _ \<Rightarrow> Inl AttributeError)"

text \<open>
  \<open>v[k]\<close> for a string key: a missing key of a \<open>dict\<close> raises \<open>KeyError\<close>, a value that
  is not a \<open>dict\<close> raises \<open>TypeError\<close>.
\<close>

definition subscript :: "json \<Rightarrow> str \<Rightarrow> error + json" where
  "subscript v k =
     (case v of
        JObj kvs \<Rightarrow> (case map_of kvs k of Some x \<Rightarrow> Inr x | None \<Rightarrow> Inl (KeyError k))
      | _ \<Rightarrow> Inl TypeError)"

text \<open>
  The items a \<open>for\<close> loop, a comprehension or \<open>list.extend\<close> draws from a value: the
  elements of a list, the keys of a \<open>dict\<close>, the characters of a string; anything else
  is not iterable.
\<close>

definition iterate :: "json \<Rightarrow> error + json list" where
  "iterate v =
     (case v of
        JArr xs \<Rightarrow> Inr xs
      | JObj kvs \<Rightarrow> Inr (map (\<lambda>kv. JStr (fst kv)) kvs)
      | JStr s \<Rightarrow> Inr (map (\<lambda>c. JStr [c]) s)
      | _ \<Rightarrow> Inl TypeError)"

text \<open>\<open>len(v)\<close>.\<close>

definition py_len :: "json \<Rightarrow> error + nat" where
  "py_len v =
     (case v of
        JArr xs \<Rightarrow> Inr (length xs)
      | JObj kvs \<Rightarrow> Inr (length kvs)
      | JStr s \<Rightarrow> Inr (length s)
      | _ \<Rightarrow> Inl TypeError)"

subsection \<open>Requests and replies\<close>

text \<open>
  The calls the program makes to the content store, by endpoint:
  \<^item> \<open>GetChildren page_id params\<close> is \<open>GET /blocks/{page_id}/children\<close> with the query
    parameters \<open>params\<close>;
  \<^item> \<open>DeleteBlock block_id\<close> is \<open>DELETE /blocks/{block_id}\<close>;
  \<^item> \<open>PatchChildren page_id batch\<close> is \<open>PATCH /blocks/{page_id}/children\<close> with the body
    \<open>{"children": batch}\<close>;
  \<^item> \<open>QueryDatabase database_id payload\<close> is \<open>POST /databases/{database_id}/query\<close>;
  \<^item> \<open>CreatePage payload\<close> is \<open>POST /pages\<close>.

  A call either raises (no reply: the connection failed) or returns a response with a
  status code and a body; the body is \<open>None\<close> when it is not JSON.
\<close>

datatype request =
    GetChildren str "(str \<times> json) list"
  | DeleteBlock json
  | PatchChildren str "json list"
  | QueryDatabase str json
  | CreatePage json

datatype reply =
    NoReply
  | Response nat "json option"

text \<open>
  The store is any deterministic machine: from its state and a request it gives a reply
  and its next state. The program's view of the world is the store's state and the log
  of the exchanges made so far, oldest first.
\<close>

type_synonym 'w server = "'w \<Rightarrow> request \<Rightarrow> reply \<times> 'w"

type_synonym 'w world = "'w \<times> (request \<times> reply) list"

definition send :: "'w server \<Rightarrow> request \<Rightarrow> 'w world \<Rightarrow> reply \<times> 'w world" where
  "send srv rq s = (case srv (fst s) rq of (rp, w) \<Rightarrow> (rp, (w, snd s @ [(rq, rp)])))"

text \<open>\<open>r.raise_for_status()\<close>: a 4xx or 5xx status raises \<open>HTTPError\<close>.\<close>

definition raise_for_status :: "nat \<Rightarrow> error + unit" where
  "raise_for_status status = (if 400 \<le> status \<and> status < 600 then Inl (HTTPError status) else Inr ())"

text \<open>A store that answers from a script, whatever it is asked; past the script's end
  the connection fails.\<close>

definition scripted :: "reply list server" where
  "scripted rs rq = (case rs of [] \<Rightarrow> (NoReply, []) | r # rest \<Rightarrow> (r, rest))"

section \<open>Page updater\<close>

text \<open>
  The loop of \<open>delete_all_blocks\<close>: \<open>block["id"]\<close>, then the delete call. The response of
  the delete call is dropped: no \<open>raise_for_status\<close> follows it.
\<close>

fun delete_each :: "'w server \<Rightarrow> json list \<Rightarrow> 'w world \<Rightarrow> (error + unit) \<times> 'w world" where
  "delete_each srv [] s = (Inr (), s)"
| "delete_each srv (block # blocks) s =
     (case subscript block (ascii ''id'') of
        Inl e \<Rightarrow> (Inl e, s)
      | Inr block_id \<Rightarrow>
          (case send srv (DeleteBlock block_id) s of
             (NoReply, s1) \<Rightarrow> (Inl ConnectionError, s1)
           | (Response status body, s1) \<Rightarrow> delete_each srv blocks s1))"

definition delete_all_blocks :: "'w server \<Rightarrow> str \<Rightarrow> 'w world \<Rightarrow> (error + unit) \<times> 'w world" where
  "delete_all_blocks srv page_id s =
     (case send srv (GetChildren page_id []) s of
        (NoReply, s1) \<Rightarrow> (Inl ConnectionError, s1)
      | (Response status body, s1) \<Rightarrow>
          (case raise_for_status status of
             Inl e \<Rightarrow> (Inl e, s1)
           | Inr _ \<Rightarrow>
               (case body of
                  None \<Rightarrow> (Inl JSONDecodeError, s1)
                | Some data \<Rightarrow>
                    (case dict_get data (ascii ''results'') (JArr []) of
                       Inl e \<Rightarrow> (Inl e, s1)
                     | Inr results \<Rightarrow>
                         (case iterate results of
                            Inl e \<Rightarrow> (Inl e, s1)
                          | Inr blocks \<Rightarrow> delete_each srv blocks s1)))))"

text \<open>
  The loop \<open>for i in range(0, len(new_blocks), 100)\<close> of \<open>update_notion_page\<close>, from
  index \<open>i\<close> on: the batch is \<open>new_blocks[i:i + 100]\<close>.
\<close>

function append_batches ::
  "'w server \<Rightarrow> str \<Rightarrow> json list \<Rightarrow> nat \<Rightarrow> 'w world \<Rightarrow> (error + unit) \<times> 'w world" where
  "append_batches srv page_id new_blocks i s =
     (if i < length new_blocks then
        (case send srv (PatchChildren page_id (slice i (i + 100) new_blocks)) s of
           (NoReply, s1) \<Rightarrow> (Inl ConnectionError, s1)
         | (Response status body, s1) \<Rightarrow>
             (case raise_for_status status of
                Inl e \<Rightarrow> (Inl e, s1)
              | Inr _ \<Rightarrow> append_batches srv page_id new_blocks (i + 100) s1))
      else (Inr (), s))"
  by pat_completeness auto
termination
  by (relation "measure (\<lambda>(srv, page_id, new_blocks, i, s). length new_blocks - i)") auto

definition update_notion_page ::
  "'w server \<Rightarrow> str \<Rightarrow> json list \<Rightarrow> 'w world \<Rightarrow> (error + unit) \<times> 'w world" where
  "update_notion_page srv page_id new_blocks s =
     (case delete_all_blocks srv page_id s of
        (Inl e, s1) \<Rightarrow> (Inl e, s1)
      | (Inr _, s1) \<Rightarrow> append_batches srv page_id new_blocks 0 s1)"

section \<open>Markdown-to-block converter\<close>

text \<open>
  Whitespace as \<open>str.rstrip()\<close>, \<open>str.strip()\<close> and the pattern \<open>\s\<close> see it: tab,
  line feed, vertical tab, form feed, carriage return, the separators \<open>U+001C\<close> to
  \<open>U+001F\<close>, space, \<open>U+0085\<close>, \<open>U+00A0\<close>, \<open>U+1680\<close>, \<open>U+2000\<close> to \<open>U+200A\<close>,
  \<open>U+2028\<close>, \<open>U+2029\<close>, \<open>U+202F\<close>, \<open>U+205F\<close> and \<open>U+3000\<close>.
\<close>

definition isspace :: "nat \<Rightarrow> bool" where
  "isspace c =
     (c \<in> set [9, 10, 11, 12, 13, 28, 29, 30, 31, 32, 133, 160, 5760, 8232, 8233, 8239, 8287, 12288]
      \<or> (8192 \<le> c \<and> c \<le> 8202))"

text \<open>
  The pattern \<open>\d\<close>: a decimal digit. The ASCII ones are \<open>0\<close> to \<open>9\<close>; which other code
  points are decimal digits is given by the interpreter's Unicode tables, the parameter
  \<open>ud\<close>.
\<close>

definition isdecimal :: "(nat \<Rightarrow> bool) \<Rightarrow> nat \<Rightarrow> bool" where
  "isdecimal ud c = (if c < 128 then 48 \<le> c \<and> c \<le> 57 else ud c)"

text \<open>
  \<open>line.rstrip()\<close>, \<open>markdown.split("\n")\<close> and \<open>"\n".join(parts)\<close>. The split scans
  the text with the characters of the current piece; a line feed (code point 10) ends
  the piece.
\<close>

definition rstrip :: "str \<Rightarrow> str" where
  "rstrip s = rev (dropWhile isspace (rev s))"

fun split_from :: "str \<Rightarrow> str \<Rightarrow> str list" where
  "split_from cur [] = [cur]"
| "split_from cur (c # cs) = (if c = 10 then cur # split_from [] cs else split_from (cur @ [c]) cs)"

definition split_nl :: "str \<Rightarrow> str list" where
  "split_nl s = split_from [] s"

fun join_nl :: "str list \<Rightarrow> str" where
  "join_nl [] = []"
| "join_nl [p] = p"
| "join_nl (p # q # ps) = p @ 10 # join_nl (q # ps)"

text \<open>
  The bullet of the source file, as the interpreter reads the file's bytes: the three
  code points \<open>U+201A U+00C4 U+00A2\<close>. The reader writes it before a bulleted item and
  the converter looks for it, followed by a space.
\<close>

definition bullet :: str where
  "bullet = [8218, 196, 162]"

text \<open>
  \<open>re.match(r"^\d+\.\s", line)\<close>: the length of the match, if there is one. As for the
  branch pattern, the greedy \<open>\d+\<close> takes the longest run of digits and gives digits
  back until a dot (code point 46) and a whitespace character follow.
  \<open>re.sub(r"^\d+\.\s", "", line)\<close> then removes that match from the start of the line.
\<close>

definition match_numbered :: "(nat \<Rightarrow> bool) \<Rightarrow> str \<Rightarrow> nat option" where
  "match_numbered ud line =
     (let n = length (takeWhile (isdecimal ud) line) in
      case filter (\<lambda>k. Suc k < length line \<and> line ! k = 46 \<and> isspace (line ! Suc k))
             (rev [1..<Suc n]) of
        [] \<Rightarrow> None
      | k # _ \<Rightarrow> Some (k + 2))"

text \<open>The block dictionary the converter builds, for a block type and its text.\<close>

definition text_block :: "str \<Rightarrow> str \<Rightarrow> json" where
  "text_block ty content =
     JObj [(ascii ''object'', JStr (ascii ''block'')),
           (ascii ''type'', JStr ty),
           (ty, JObj [(ascii ''rich_text'',
                  JArr [JObj [(ascii ''type'', JStr (ascii ''text'')),
                              (ascii ''text'', JObj [(ascii ''content'', JStr content)])]])])]"

text \<open>The loop over the lines, with the list of blocks built so far.\<close>

fun convert_lines :: "(nat \<Rightarrow> bool) \<Rightarrow> str list \<Rightarrow> json list \<Rightarrow> json list" where
  "convert_lines ud [] blocks = blocks"
| "convert_lines ud (l # lines) blocks =
     (let line = rstrip l in
      if line = [] then convert_lines ud lines blocks
      else if startswith line (ascii ''# '') then
        convert_lines ud lines (blocks @ [text_block (ascii ''heading_1'') (drop 2 line)])
      else if startswith line (ascii ''## '') then
        convert_lines ud lines (blocks @ [text_block (ascii ''heading_2'') (drop 3 line)])
      else if startswith line (ascii ''### '') then
        convert_lines ud lines (blocks @ [text_block (ascii ''heading_3'') (drop 4 line)])
      else if startswith line (ascii ''- '') \<or> startswith line (bullet @ [32]) then
        convert_lines ud lines (blocks @ [text_block (ascii ''bulleted_list_item'') (drop 2 line)])
      else
        (case match_numbered ud line of
           Some m \<Rightarrow>
             convert_lines ud lines (blocks @ [text_block (ascii ''numbered_list_item'') (drop m line)])
         | None \<Rightarrow>
             convert_lines ud lines (blocks @ [text_block (ascii ''paragraph'') line])))"

definition markdown_to_notion_blocks :: "(nat \<Rightarrow> bool) \<Rightarrow> str \<Rightarrow> json list" where
  "markdown_to_notion_blocks ud markdown = convert_lines ud (split_nl markdown) []"

text \<open>
  The numeric marker of the rule table: a run of digits, a dot and one separator
  character at the start of a line. \<open>numeric_marker sep ud line\<close> is the remainder of
  the line after such a marker, if the line starts with one; \<open>sep\<close> says which characters
  may follow the dot.
\<close>

definition numeric_marker :: "(nat \<Rightarrow> bool) \<Rightarrow> (nat \<Rightarrow> bool) \<Rightarrow> str \<Rightarrow> str option" where
  "numeric_marker sep ud line =
     (case dropWhile (isdecimal ud) line of
        dot # after # remainder \<Rightarrow>
          if takeWhile (isdecimal ud) line \<noteq> [] \<and> dot = 46 \<and> sep after then Some remainder
          else None
      | _ \<Rightarrow> None)"

section \<open>Content reader\<close>

text \<open>
  The \<open>while has_more\<close> loop of \<open>get_notion_page_content\<close>, from the top of its body,
  with the blocks gathered so far and the cursor of the previous page (\<open>None\<close> at first).
  The store decides whether the loop ends, so the function is partial: \<open>None\<close> is a run
  that never returns.
\<close>

partial_function (option) fetch_blocks ::
  "'w server \<Rightarrow> str \<Rightarrow> json list \<Rightarrow> json \<Rightarrow> 'w world \<Rightarrow> ((error + json list) \<times> 'w world) option" where
  "fetch_blocks srv page_id blocks start_cursor s =
     (case send srv (GetChildren page_id
               ((ascii ''page_size'', JNum 100)
                # (if truthy start_cursor then [(ascii ''start_cursor'', start_cursor)] else []))) s of
        (NoReply, s1) \<Rightarrow> Some (Inl ConnectionError, s1)
      | (Response status body, s1) \<Rightarrow>
          (case raise_for_status status of
             Inl e \<Rightarrow> Some (Inl e, s1)
           | Inr _ \<Rightarrow>
               (case body of
                  None \<Rightarrow> Some (Inl JSONDecodeError, s1)
                | Some data \<Rightarrow>
                    (case dict_get data (ascii ''results'') (JArr []) of
                       Inl e \<Rightarrow> Some (Inl e, s1)
                     | Inr results \<Rightarrow>
                         (case iterate results of
                            Inl e \<Rightarrow> Some (Inl e, s1)
                          | Inr items \<Rightarrow>
                              (case dict_get data (ascii ''has_more'') (JBool False) of
                                 Inl e \<Rightarrow> Some (Inl e, s1)
                               | Inr has_more \<Rightarrow>
                                   (case dict_get data (ascii ''next_cursor'') JNull of
                                      Inl e \<Rightarrow> Some (Inl e, s1)
                                    | Inr next_cursor \<Rightarrow>
                                        if truthy has_more
                                        then fetch_blocks srv page_id (blocks @ items) next_cursor s1
                                        else Some (Inr (blocks @ items), s1))))))))"

text \<open>
  \<open>[rt.get("plain_text", "") for rt in rich_text]\<close> and \<open>"".join(...)\<close>: the join needs
  every fragment to be a string.
\<close>

fun plain_texts :: "json list \<Rightarrow> error + json list" where
  "plain_texts [] = Inr []"
| "plain_texts (rt # rts) =
     (case dict_get rt (ascii ''plain_text'') (JStr []) of
        Inl e \<Rightarrow> Inl e
      | Inr t \<Rightarrow> (case plain_texts rts of Inl e \<Rightarrow> Inl e | Inr ts \<Rightarrow> Inr (t # ts)))"

fun join_fragments :: "json list \<Rightarrow> error + str" where
  "join_fragments [] = Inr []"
| "join_fragments (f # fs) =
     (case f of
        JStr t \<Rightarrow> (case join_fragments fs of Inl e \<Rightarrow> Inl e | Inr r \<Rightarrow> Inr (t @ r))
      | _ \<Rightarrow> Inl TypeError)"

text \<open>The line the reader writes for a block type and its text.\<close>

definition content_line :: "json \<Rightarrow> str \<Rightarrow> str" where
  "content_line block_type text' =
     (if block_type = JStr (ascii ''heading_1'') then ascii ''# '' @ text'
      else if block_type = JStr (ascii ''heading_2'') then ascii ''## '' @ text'
      else if block_type = JStr (ascii ''heading_3'') then ascii ''### '' @ text'
      else if block_type = JStr (ascii ''bulleted_list_item'') then bullet @ [32] @ text'
      else if block_type = JStr (ascii ''numbered_list_item'') then ascii ''1. '' @ text'
      else text')"

text \<open>The loop over the gathered blocks, with the lines written so far.\<close>

fun render_blocks :: "json list \<Rightarrow> str list \<Rightarrow> error + str list" where
  "render_blocks [] content_parts = Inr content_parts"
| "render_blocks (block # blocks) content_parts =
     (case dict_get block (ascii ''type'') JNull of
        Inl e \<Rightarrow> Inl e
      | Inr block_type \<Rightarrow>
          if \<not> truthy block_type then render_blocks blocks content_parts
          else
            (case dict_get_value block block_type (JObj []) of
               Inl e \<Rightarrow> Inl e
             | Inr block_data \<Rightarrow>
                 (case dict_get block_data (ascii ''rich_text'') (JArr []) of
                    Inl e \<Rightarrow> Inl e
                  | Inr rich_text \<Rightarrow>
                      if truthy rich_text then
                        (case iterate rich_text of
                           Inl e \<Rightarrow> Inl e
                         | Inr rts \<Rightarrow>
                             (case plain_texts rts of
                                Inl e \<Rightarrow> Inl e
                              | Inr fragments \<Rightarrow>
                                  (case join_fragments fragments of
                                     Inl e \<Rightarrow> Inl e
                                   | Inr text' \<Rightarrow>
                                       render_blocks blocks
                                         (content_parts @ [content_line block_type text']))))
                      else render_blocks blocks content_parts)))"

definition get_notion_page_content ::
  "'w server \<Rightarrow> str \<Rightarrow> 'w world \<Rightarrow> ((error + str) \<times> 'w world) option" where
  "get_notion_page_content srv page_id s =
     (case fetch_blocks srv page_id [] JNull s of
        None \<Rightarrow> None
      | Some (Inl e, s1) \<Rightarrow> Some (Inl e, s1)
      | Some (Inr blocks, s1) \<Rightarrow>
          (case render_blocks blocks [] of
             Inl e \<Rightarrow> Some (Inl e, s1)
           | Inr content_parts \<Rightarrow> Some (Inr (join_nl content_parts), s1)))"

section \<open>Synthesis client, tracker and orchestrator\<close>

text \<open>The pull request, as \<open>load_pr\<close> returns it.\<close>

record pr_info =
  pr_title :: str
  pr_body :: str
  pr_url :: str
  pr_number :: int
  pr_repo :: str
  pr_author :: str
  pr_branch :: str
  pr_created_at :: str
  pr_updated_at :: str

text \<open>
  The prompt sent to the generative-text service, by the values its fixed text embeds.
  The service is a function from the prompt to the text of the first completion, or to
  the exception the call raises.
\<close>

record prompt =
  prompt_existing :: str
  prompt_title :: str
  prompt_branch :: str
  prompt_author :: str
  prompt_number :: int
  prompt_url :: str
  prompt_description :: str

definition synthesize_with_openai ::
  "(prompt \<Rightarrow> error + str) \<Rightarrow> str \<Rightarrow> pr_info \<Rightarrow> error + str" where
  "synthesize_with_openai llm existing_content pr =
     llm \<lparr> prompt_existing =
             (if list_all isspace existing_content then ascii ''(Page is currently empty)''
              else existing_content),
           prompt_title = pr_title pr,
           prompt_branch = pr_branch pr,
           prompt_author = pr_author pr,
           prompt_number = pr_number pr,
           prompt_url = pr_url pr,
           prompt_description =
             (if list_all isspace (pr_body pr) then ascii ''(No description provided)''
              else pr_body pr) \<rparr>"

text \<open>The query of \<open>check_pr_exists_in_database\<close> and the row of \<open>add_pr_to_database\<close>.\<close>

definition exists_payload :: "str \<Rightarrow> json" where
  "exists_payload url =
     JObj [(ascii ''filter'',
              JObj [(ascii ''property'', JStr (ascii ''Link'')),
                    (ascii ''url'', JObj [(ascii ''equals'', JStr url)])]),
           (ascii ''page_size'', JNum 1)]"

definition text_property :: "str \<Rightarrow> json" where
  "text_property content =
     JArr [JObj [(ascii ''type'', JStr (ascii ''text'')),
                 (ascii ''text'', JObj [(ascii ''content'', JStr content)])]]"

definition row_payload :: "str \<Rightarrow> pr_info \<Rightarrow> str option \<Rightarrow> json" where
  "row_payload database_id pr prefix =
     JObj [(ascii ''parent'', JObj [(ascii ''database_id'', JStr database_id)]),
           (ascii ''properties'',
              JObj [(ascii ''Title'', JObj [(ascii ''title'', text_property (pr_title pr))]),
                    (ascii ''Author'', JObj [(ascii ''rich_text'', text_property (pr_author pr))]),
                    (ascii ''Date'',
                       JObj [(ascii ''date'',
                          JObj [(ascii ''start'', JStr (takeWhile (\<lambda>c. c \<noteq> 84) (pr_created_at pr)))])]),
                    (ascii ''Prefix'',
                       JObj [(ascii ''rich_text'',
                          text_property (if prefix = None \<or> prefix = Some [] then ascii ''none''
                                         else the prefix))]),
                    (ascii ''Link'', JObj [(ascii ''url'', JStr (pr_url pr))])])]"

definition check_pr_exists_in_database ::
  "'w server \<Rightarrow> str \<Rightarrow> str \<Rightarrow> 'w world \<Rightarrow> (error + bool) \<times> 'w world" where
  "check_pr_exists_in_database srv database_id url s =
     (case send srv (QueryDatabase database_id (exists_payload url)) s of
        (NoReply, s1) \<Rightarrow> (Inl ConnectionError, s1)
      | (Response status body, s1) \<Rightarrow>
          (case raise_for_status status of
             Inl e \<Rightarrow> (Inl e, s1)
           | Inr _ \<Rightarrow>
               (case body of
                  None \<Rightarrow> (Inl JSONDecodeError, s1)
                | Some data \<Rightarrow>
                    (case dict_get data (ascii ''results'') (JArr []) of
                       Inl e \<Rightarrow> (Inl e, s1)
                     | Inr results \<Rightarrow>
                         (case py_len results of
                            Inl e \<Rightarrow> (Inl e, s1)
                          | Inr n \<Rightarrow> (Inr (n > 0), s1))))))"

definition add_pr_to_database ::
  "'w server \<Rightarrow> str \<Rightarrow> pr_info \<Rightarrow> str option \<Rightarrow> 'w world \<Rightarrow> (error + json) \<times> 'w world" where
  "add_pr_to_database srv database_id pr prefix s =
     (case send srv (CreatePage (row_payload database_id pr prefix)) s of
        (NoReply, s1) \<Rightarrow> (Inl ConnectionError, s1)
      | (Response status body, s1) \<Rightarrow>
          (case raise_for_status status of
             Inl e \<Rightarrow> (Inl e, s1)
           | Inr _ \<Rightarrow>
               (case body of
                  None \<Rightarrow> (Inl JSONDecodeError, s1)
                | Some data \<Rightarrow>
                    (case subscript data (ascii ''id'') of
                       Inl e \<Rightarrow> (Inl e, s1)
                     | Inr row_id \<Rightarrow> (Inr row_id, s1)))))"

text \<open>
  The last step of \<open>main\<close>: \<open>if PR_DATABASE_ID:\<close> with the existence check and the
  insertion. The database identifier is absent when the environment variable is not
  set; an empty one is falsy too.
\<close>

definition track_pr ::
  "'w server \<Rightarrow> str option \<Rightarrow> pr_info \<Rightarrow> str option \<Rightarrow> 'w world \<Rightarrow> (error + unit) \<times> 'w world" where
  "track_pr srv pr_database_id pr prefix s =
     (if pr_database_id \<noteq> None \<and> pr_database_id \<noteq> Some [] then
        (case check_pr_exists_in_database srv (the pr_database_id) (pr_url pr) s of
           (Inl e, s1) \<Rightarrow> (Inl e, s1)
         | (Inr found, s1) \<Rightarrow>
             if found then (Inr (), s1)
             else
               (case add_pr_to_database srv (the pr_database_id) pr prefix s1 of
                  (Inl e, s2) \<Rightarrow> (Inl e, s2)
                | (Inr _, s2) \<Rightarrow> (Inr (), s2)))
      else (Inr (), s))"

text \<open>
  \<open>main\<close>, from the loaded mapping and pull request on. It returns the exception that
  ended the run or \<open>()\<close>, with the world the run left; \<open>None\<close> is a run that never
  returns.
\<close>

definition main ::
  "(str \<Rightarrow> str) \<Rightarrow> (nat \<Rightarrow> bool) \<Rightarrow> 'w server \<Rightarrow> (prompt \<Rightarrow> error + str) \<Rightarrow> str option
     \<Rightarrow> (str \<rightharpoonup> str) \<Rightarrow> pr_info \<Rightarrow> 'w world \<Rightarrow> ((error + unit) \<times> 'w world) option" where
  "main ul ud srv llm pr_database_id page_mapping pr s =
     (let prefix = extract_prefix_from_branch ul (pr_branch pr) in
      case get_page_id_for_prefix prefix page_mapping of
        Inl e \<Rightarrow> Some (Inl e, s)
      | Inr mapped_id \<Rightarrow>
          (case format_page_id ul mapped_id of
             Inl e \<Rightarrow> Some (Inl e, s)
           | Inr page_id \<Rightarrow>
               (case get_notion_page_content srv page_id s of
                  None \<Rightarrow> None
                | Some (Inl e, s1) \<Rightarrow> Some (Inl e, s1)
                | Some (Inr existing_content, s1) \<Rightarrow>
                    (case synthesize_with_openai llm existing_content pr of
                       Inl e \<Rightarrow> Some (Inl e, s1)
                     | Inr synthesized_content \<Rightarrow>
                         (case update_notion_page srv page_id
                                 (markdown_to_notion_blocks ud synthesized_content) s1 of
                            (Inl e, s2) \<Rightarrow> Some (Inl e, s2)
                          | (Inr _, s2) \<Rightarrow> Some (track_pr srv pr_database_id pr prefix s2))))))"

text \<open>The requests of the tracker: the existence query and the row insertion.\<close>

fun is_create :: "request \<Rightarrow> bool" where
  "is_create (CreatePage payload) = True"
| "is_create rq = False"

fun is_tracker_request :: "request \<Rightarrow> bool" where
  "is_tracker_request (CreatePage payload) = True"
| "is_tracker_request (QueryDatabase database_id payload) = True"
| "is_tracker_request rq = False"

definition content_only :: "(request \<times> reply) list \<Rightarrow> bool" where
  "content_only tr = list_all (\<lambda>x. \<not> is_tracker_request (fst x)) tr"

text \<open>An answer to the existence query that reports no row: a success status and an
  empty \<open>results\<close>.\<close>

definition no_rows :: "reply \<Rightarrow> bool" where
  "no_rows answer =
     (case answer of
        Response status (Some data) \<Rightarrow>
          raise_for_status status = Inr ()
          \<and> (case dict_get data (ascii ''results'') (JArr []) of
                Inr results \<Rightarrow> py_len results = Inr 0
              | Inl e \<Rightarrow> False)
      | _ \<Rightarrow> False)"

text \<open>
  The exchanges of a tracking step, given the existence query and the insertion it is to
  send: the query alone, answered otherwise than with no row (a failure, or at least one
  row); or the query, answered with no row, followed by the insertion.
\<close>

fun tracked :: "request \<Rightarrow> request \<Rightarrow> (request \<times> reply) list \<Rightarrow> bool" where
  "tracked query insertion [] = False"
| "tracked query insertion [(sent, answer)] = (sent = query \<and> \<not> no_rows answer)"
| "tracked query insertion [(sent, answer), (sent_next, created)] =
     (sent = query \<and> no_rows answer \<and> sent_next = insertion)"
| "tracked query insertion (a # b # c # track) = False"

section \<open>The converter, line by line\<close>

text \<open>
  The block type and the text that the body of the converter's loop gives one line, or
  \<open>None\<close> for a line that gives no block. It restates the loop body without the list of
  blocks; \<open>convert_lines_item\<close> below proves that the loop does exactly this.
\<close>

definition line_item :: "(nat \<Rightarrow> bool) \<Rightarrow> str \<Rightarrow> (str \<times> str) option" where
  "line_item ud l =
     (let line = rstrip l in
      if line = [] then None
      else if startswith line (ascii ''# '') then Some (ascii ''heading_1'', drop 2 line)
      else if startswith line (ascii ''## '') then Some (ascii ''heading_2'', drop 3 line)
      else if startswith line (ascii ''### '') then Some (ascii ''heading_3'', drop 4 line)
      else if startswith line (ascii ''- '') \<or> startswith line (bullet @ [32]) then
        Some (ascii ''bulleted_list_item'', drop 2 line)
      else
        (case match_numbered ud line of
           Some m \<Rightarrow> Some (ascii ''numbered_list_item'', drop m line)
         | None \<Rightarrow> Some (ascii ''paragraph'', line)))"



text \<open>The text a block comes back with after a round trip through the reader.\<close>

definition reread_text :: "str \<times> str \<Rightarrow> str" where
  "reread_text item =
     (if fst item = ascii ''bulleted_list_item'' then [162, 32] @ snd item else snd item)"

section \<open>Replies the program accepts\<close>

text \<open>
  An exchange after which the program goes on: the call returned a response and, unless
  it is the delete call, whose response is never looked at, the status is not an error
  status.
\<close>

definition answered :: "request \<times> reply \<Rightarrow> bool" where
  "answered x =
     (case snd x of
        NoReply \<Rightarrow> False
      | Response status body \<Rightarrow>
          (case fst x of
             DeleteBlock block_id \<Rightarrow> True
           | _ \<Rightarrow> raise_for_status status = Inr ()))"

text \<open>
  A stretch of the log in which only the last exchange may be a failed one, and not even
  the last when the stretch ended well.
\<close>

definition fatal_last :: "(request \<times> reply) list \<Rightarrow> bool \<Rightarrow> bool" where
  "fatal_last tr failed = (list_all answered (butlast tr) \<and> (failed \<or> list_all answered tr))"

section \<open>Example data\<close>

text \<open>Listings of a page with one and with two blocks, as the store returns them.\<close>

definition one_block_listing :: reply where
  "one_block_listing =
     Response 200 (Some (JObj [(ascii ''results'', JArr [JObj [(ascii ''id'', JStr (ascii ''b1''))]])]))"

definition two_block_listing :: reply where
  "two_block_listing =
     Response 200 (Some (JObj [(ascii ''results'',
       JArr [JObj [(ascii ''id'', JStr (ascii ''b1''))], JObj [(ascii ''id'', JStr (ascii ''b2''))]])]))"

text \<open>
  A page of a listing, as the store returns it: the blocks, the \<open>has_more\<close> flag and the
  cursor of the next page.
\<close>

definition page_reply :: "json list \<Rightarrow> json \<Rightarrow> json \<Rightarrow> reply" where
  "page_reply items has_more next_cursor =
     Response 200 (Some (JObj [(ascii ''results'', JArr items),
                                (ascii ''has_more'', has_more),
                                (ascii ''next_cursor'', next_cursor)]))"

text \<open>
  The exchanges of a paginated read that starts with the cursor \<open>cursor\<close> and is answered
  by the given pages: every request asks for 100 blocks, and carries as \<open>start_cursor\<close>
  the \<open>next_cursor\<close> of the page before it, when that is truthy.
\<close>

fun paged_exchanges :: "str \<Rightarrow> json \<Rightarrow> (json list \<times> json \<times> json) list \<Rightarrow> (request \<times> reply) list" where
  "paged_exchanges page_id cursor [] = []"
| "paged_exchanges page_id cursor ((items, has_more, next_cursor) # pages) =
     (GetChildren page_id
        ((ascii ''page_size'', JNum 100)
         # (if truthy cursor then [(ascii ''start_cursor'', cursor)] else [])),
      page_reply items has_more next_cursor)
     # paged_exchanges page_id next_cursor pages"

text \<open>
  A block the converter wrote, as the content store returns it on a read: the store adds
  to the text run its text as \<open>plain_text\<close>, the key the reader looks for. The store is
  not part of the repository; this is the read format the reader's code is written for.
\<close>

definition stored_block :: "str \<Rightarrow> str \<Rightarrow> json" where
  "stored_block ty content =
     JObj [(ascii ''object'', JStr (ascii ''block'')),
           (ascii ''type'', JStr ty),
           (ty, JObj [(ascii ''rich_text'',
                  JArr [JObj [(ascii ''type'', JStr (ascii ''text'')),
                              (ascii ''text'', JObj [(ascii ''content'', JStr content)]),
                              (ascii ''plain_text'', JStr content)]])])]"

text \<open>
  A run of the orchestrator: the pull request of branch \<open>feat/login\<close>, routed to the
  page of \<open>feat\<close>; a generative-text service that always answers with a heading; and a
  store that answers from a script.
\<close>

definition example_url :: str where
  "example_url = ascii ''https://example.test/pull/7''"

definition example_pr :: pr_info where
  "example_pr =
     \<lparr> pr_title = ascii ''Add SSO'', pr_body = [], pr_url = example_url,
       pr_number = 7, pr_repo = ascii ''org/repo'', pr_author = ascii ''dev'',
       pr_branch = ascii ''feat/login'', pr_created_at = ascii ''2024-01-02T03:04:05Z'',
       pr_updated_at = ascii ''2024-01-03T00:00:00Z'' \<rparr>"

definition example_mapping :: "str \<rightharpoonup> str" where
  "example_mapping = [ascii ''feat'' \<mapsto> ascii ''0123456789abcdef0123456789abcdef'']"

definition example_llm :: "prompt \<Rightarrow> error + str" where
  "example_llm p = Inr (ascii ''# Login'')"

definition no_digits :: "nat \<Rightarrow> bool" where
  "no_digits c = False"

definition found_none :: reply where
  "found_none = Response 200 (Some (JObj [(ascii ''results'', JArr [])]))"

definition found_one :: reply where
  "found_one = Response 200 (Some (JObj [(ascii ''results'', JArr [JObj [(ascii ''id'', JStr (ascii ''row0''))]])]))"

definition row_created :: reply where
  "row_created = Response 200 (Some (JObj [(ascii ''id'', JStr (ascii ''row1''))]))"

definition example_page :: reply where
  "example_page = page_reply [stored_block (ascii ''heading_1'') (ascii ''Login'')] (JBool False) JNull"

text \<open>
  The page of the example runs, and their exchanges with it: the read, the listing, the
  delete of the one old block and the append of the one new block.
\<close>

definition example_page_id :: str where
  "example_page_id = ascii ''01234567-89ab-cdef-0123-456789abcdef''"

definition page_exchanges :: "(request \<times> reply) list" where
  "page_exchanges =
     [(GetChildren example_page_id [(ascii ''page_size'', JNum 100)], example_page),
      (GetChildren example_page_id [], one_block_listing),
      (DeleteBlock (JStr (ascii ''b1'')), Response 200 None),
      (PatchChildren example_page_id [text_block (ascii ''heading_1'') (ascii ''Login'')],
       Response 200 None)]"

section \<open>Verification\<close>

subsection \<open>Prefix router\<close>

lemma word_char_slash: "\<not> word_char 47" by (simp add: word_char_def)

lemma match_prefix_eq:
  "match_prefix branch =
     (if takeWhile word_char branch \<noteq> [] \<and> startswith (dropWhile word_char branch) [47]
      then Some (takeWhile word_char branch) else None)"
proof -
  define n where "n = length (takeWhile word_char branch)"
  have inner: "\<And>k. k < n \<Longrightarrow> \<not> (k < length branch \<and> branch ! k = 47)"
  proof -
    fix k assume "k < n"
    then have "word_char (branch ! k)"
      unfolding n_def by (metis takeWhile_nth nth_mem set_takeWhileD)
    then show "\<not> (k < length branch \<and> branch ! k = 47)" using word_char_slash by auto
  qed
  have f0: "filter (\<lambda>k. k < length branch \<and> branch ! k = 47) (rev [1..<n]) = []"
    using inner by (auto simp: filter_empty_conv)
  have nle: "n \<le> length branch" unfolding n_def by (simp add: length_takeWhile_le)
  have dw: "startswith (dropWhile word_char branch) [47] \<longleftrightarrow> (n < length branch \<and> branch ! n = 47)"
  proof (cases "n < length branch")
    case True
    then have "dropWhile word_char branch \<noteq> []" unfolding n_def
      by (metis takeWhile_dropWhile_id append_Nil2 less_irrefl)
    then have "hd (dropWhile word_char branch) = branch ! n" unfolding n_def
      by (simp add: hd_dropWhile dropWhile_nth hd_conv_nth)
    then show ?thesis using True \<open>dropWhile word_char branch \<noteq> []\<close>
      by (cases "dropWhile word_char branch") (auto simp: startswith_def)
  next
    case False
    then have "n = length branch" using nle by simp
    then have "dropWhile word_char branch = []" unfolding n_def
      by (metis takeWhile_dropWhile_id append_eq_conv_conj drop_all order_refl)
    then have "take (length [47::nat]) (dropWhile word_char branch) = []" by (simp only: take_Nil)
    then show ?thesis using False unfolding startswith_def by (simp only:) simp
  qed
  have tk: "take n branch = takeWhile word_char branch" unfolding n_def
    by (metis takeWhile_dropWhile_id append_eq_conv_conj)
  have ne: "takeWhile word_char branch \<noteq> [] \<longleftrightarrow> n \<noteq> 0" unfolding n_def by simp
  have mp: "match_prefix branch =
      (case filter (\<lambda>k. k < length branch \<and> branch ! k = 47) (rev [1..<Suc n]) of
         [] \<Rightarrow> None | k # _ \<Rightarrow> Some (take k branch))"
    unfolding match_prefix_def n_def Let_def ..
  show ?thesis
  proof (cases "n = 0")
    case True
    then show ?thesis unfolding mp using ne by simp
  next
    case False
    then have r: "rev [1..<Suc n] = n # rev [1..<n]" by simp
    show ?thesis unfolding mp r using f0 dw tk False ne by simp
  qed
qed

lemma lower_ascii_text: "list_all (\<lambda>c. c < 128) s \<Longrightarrow> lower ul s = map lower_ascii s"
  by (simp add: lower_def)

lemma word_char_ascii: "word_char c \<Longrightarrow> c < 128"
  by (auto simp: word_char_def)

text \<open>
  Claim C9. For every branch name, prefix extraction returns the lowercased leading run
  of class characters (ASCII letters, digits, underscore, hyphen) when that run is not
  empty and is immediately followed by \<open>/\<close>, and no prefix otherwise. The run is ASCII,
  so its lowercasing does not depend on the case tables. In particular
  \<open>feat/x\<close> gives \<open>feat\<close>, \<open>BUG/Y\<close> gives \<open>bug\<close>, and \<open>main\<close> gives no prefix.
\<close>

theorem extract_prefix_from_branch_run:
  "extract_prefix_from_branch ul branch =
     (if takeWhile word_char branch \<noteq> [] \<and> startswith (dropWhile word_char branch) [47]
      then Some (map lower_ascii (takeWhile word_char branch)) else None)
   \<and> extract_prefix_from_branch ul (ascii ''feat/x'') = Some (ascii ''feat'')
   \<and> extract_prefix_from_branch ul (ascii ''BUG/Y'') = Some (ascii ''bug'')
   \<and> extract_prefix_from_branch ul (ascii ''main'') = None"
proof -
  have asc: "list_all (\<lambda>c. c < 128) (takeWhile word_char b)" for b
    by (auto simp: list_all_iff dest!: set_takeWhileD word_char_ascii)
  have gen: "extract_prefix_from_branch ul b =
     (if takeWhile word_char b \<noteq> [] \<and> startswith (dropWhile word_char b) [47]
      then Some (map lower_ascii (takeWhile word_char b)) else None)" for b
    unfolding extract_prefix_from_branch_def match_prefix_eq
    by (simp add: lower_ascii_text[OF asc])
  show ?thesis
    unfolding gen[of "ascii ''feat/x''"] gen[of "ascii ''BUG/Y''"] gen[of "ascii ''main''"]
    by (simp add: gen ascii_def word_char_def startswith_def lower_ascii_def)
qed

text \<open>
  Claim C6. Resolution returns the mapping entry of the prefix when the prefix is
  defined (not \<open>None\<close> and, by Python truthiness, not empty) and present in the mapping;
  otherwise it returns the \<open>default\<close> entry when there is one; and when neither exists it
  raises the error whose message names the prefix.
\<close>

theorem get_page_id_for_prefix_resolution:
  "(p \<noteq> [] \<and> mapping p = Some v \<longrightarrow> get_page_id_for_prefix (Some p) mapping = Inr v)
   \<and> ((\<forall>q. prefix = Some q \<longrightarrow> q = [] \<or> mapping q = None) \<and> mapping (ascii ''default'') = Some d
        \<longrightarrow> get_page_id_for_prefix prefix mapping = Inr d)
   \<and> ((\<forall>q. prefix = Some q \<longrightarrow> q = [] \<or> mapping q = None) \<and> mapping (ascii ''default'') = None
        \<longrightarrow> get_page_id_for_prefix prefix mapping =
              Inl (ValueError (ascii ''No mapping found for prefix '' @ [39] @ str_of_prefix prefix
                     @ [39] @ ascii '' and no default page configured.'')))"
  by (cases prefix) (auto simp: get_page_id_for_prefix_def)

text \<open>
  The routing examples of the specification: with \<open>{feat: P1, default: P0}\<close>, \<open>feat\<close>
  resolves to \<open>P1\<close>, \<open>chore\<close> and the undefined prefix to \<open>P0\<close>; without a default,
  \<open>chore\<close> fails.
\<close>

theorem get_page_id_for_prefix_resolution_witness:
  "get_page_id_for_prefix (Some (ascii ''feat''))
      [ascii ''feat'' \<mapsto> ascii ''P1'', ascii ''default'' \<mapsto> ascii ''P0''] = Inr (ascii ''P1'')
   \<and> get_page_id_for_prefix (Some (ascii ''chore''))
      [ascii ''feat'' \<mapsto> ascii ''P1'', ascii ''default'' \<mapsto> ascii ''P0''] = Inr (ascii ''P0'')
   \<and> get_page_id_for_prefix None
      [ascii ''feat'' \<mapsto> ascii ''P1'', ascii ''default'' \<mapsto> ascii ''P0''] = Inr (ascii ''P0'')
   \<and> get_page_id_for_prefix (Some (ascii ''chore'')) [ascii ''feat'' \<mapsto> ascii ''P1''] =
       Inl (ValueError (ascii ''No mapping found for prefix '' @ [39] @ ascii ''chore''
                     @ [39] @ ascii '' and no default page configured.''))"
proof -
  let ?m = "[ascii ''feat'' \<mapsto> ascii ''P1'', ascii ''default'' \<mapsto> ascii ''P0'']"
  let ?m1 = "[ascii ''feat'' \<mapsto> ascii ''P1'']"
  have a: "ascii ''feat'' \<noteq> [] \<and> ?m (ascii ''feat'') = Some (ascii ''P1'')"
    by (simp add: ascii_def)
  have b: "(\<forall>q. Some (ascii ''chore'') = Some q \<longrightarrow> q = [] \<or> ?m q = None)
           \<and> ?m (ascii ''default'') = Some (ascii ''P0'')"
    by (simp add: ascii_def)
  have c: "(\<forall>q. (None :: str option) = Some q \<longrightarrow> q = [] \<or> ?m q = None)
           \<and> ?m (ascii ''default'') = Some (ascii ''P0'')"
    by (simp add: ascii_def)
  have d: "(\<forall>q. Some (ascii ''chore'') = Some q \<longrightarrow> q = [] \<or> ?m1 q = None)
           \<and> ?m1 (ascii ''default'') = None"
    by (simp add: ascii_def)
  note r = get_page_id_for_prefix_resolution
  have t1: "get_page_id_for_prefix (Some (ascii ''feat'')) ?m = Inr (ascii ''P1'')"
    by (rule mp[OF conjunct1[OF r[of "ascii ''feat''" ?m "ascii ''P1''" None "[]"]] a])
  have t2: "get_page_id_for_prefix (Some (ascii ''chore'')) ?m = Inr (ascii ''P0'')"
    by (rule mp[OF conjunct1[OF conjunct2[OF r[of "[]" ?m "[]" "Some (ascii ''chore'')" "ascii ''P0''"]]] b])
  have t3: "get_page_id_for_prefix None ?m = Inr (ascii ''P0'')"
    by (rule mp[OF conjunct1[OF conjunct2[OF r[of "[]" ?m "[]" None "ascii ''P0''"]]] c])
  have t4: "get_page_id_for_prefix (Some (ascii ''chore'')) ?m1 =
       Inl (ValueError (ascii ''No mapping found for prefix '' @ [39] @ str_of_prefix (Some (ascii ''chore''))
                     @ [39] @ ascii '' and no default page configured.''))"
    by (rule mp[OF conjunct2[OF conjunct2[OF r[of "[]" ?m1 "[]" "Some (ascii ''chore'')" "[]"]]] d])
  show ?thesis using t1 t2 t3 t4 by (simp add: str_of_prefix_def)
qed

subsection \<open>Page identifier normalizer\<close>

lemma take_drop_step: "take n (drop i xs) @ drop (i + n) xs = drop i xs"
  by (metis append_take_drop_id drop_drop add.commute)

lemma groups_join:
  assumes "length c = 32"
  shows "slice 0 8 c @ slice 8 12 c @ slice 12 16 c @ slice 16 20 c @ slice 20 32 c = c"
proof -
  have e: "slice 20 32 c = drop 20 c" using assms by (simp add: slice_def)
  have "slice 16 20 c @ drop 20 c = drop 16 c" using take_drop_step[of 4 16 c] by (simp add: slice_def)
  moreover have "slice 12 16 c @ drop 16 c = drop 12 c" using take_drop_step[of 4 12 c] by (simp add: slice_def)
  moreover have "slice 8 12 c @ drop 12 c = drop 8 c" using take_drop_step[of 4 8 c] by (simp add: slice_def)
  moreover have "slice 0 8 c @ drop 8 c = c" by (simp add: slice_def)
  ultimately show ?thesis using e by simp
qed

lemma format_page_id_dashed:
  "format_page_id ul x = (if length (clean_id ul x) \<noteq> 32
      then Inl (ValueError (ascii ''Invalid page ID length: '' @ x)) else Inr (dashed (clean_id ul x)))"
  by (simp add: format_page_id_def dashed_def Let_def)

lemma dashed_props:
  assumes len: "length c = 32" and nh: "list_all (\<lambda>x. x \<noteq> 45) c"
  shows "filter (\<lambda>x. x \<noteq> 45) (dashed c) = c" "length (dashed c) = 36"
    "dashed c ! 8 = 45" "dashed c ! 13 = 45" "dashed c ! 18 = 45" "dashed c ! 23 = 45"
proof -
  have f: "filter (\<lambda>x. x \<noteq> 45) (slice i j c) = slice i j c" for i j
    using nh by (auto simp: slice_def list_all_iff filter_id_conv dest!: in_set_takeD in_set_dropD)
  show "filter (\<lambda>x. x \<noteq> 45) (dashed c) = c"
    using groups_join[OF len] by (simp add: dashed_def f)
  show "length (dashed c) = 36" using len by (simp add: dashed_def slice_def)
  show "dashed c ! 8 = 45" using len by (simp add: dashed_def slice_def nth_append)
  show "dashed c ! 13 = 45" using len by (simp add: dashed_def slice_def nth_append)
  show "dashed c ! 18 = 45" using len by (simp add: dashed_def slice_def nth_append)
  show "dashed c ! 23 = 45" using len by (simp add: dashed_def slice_def nth_append)
qed

lemma is_hex_facts: "is_hex c \<Longrightarrow> c < 128 \<and> c \<noteq> 45 \<and> lower_ascii c < 128 \<and> lower_ascii c \<noteq> 45
    \<and> lower_ascii (lower_ascii c) = lower_ascii c"
  by (auto simp: is_hex_def lower_ascii_def)

text \<open>
  Claim C5, as amended. For every input whose hyphen-stripped form has exactly 32
  hexadecimal characters, normalization succeeds with the 8-4-4-4-12 dashed form (36
  characters, hyphens after the offsets 8, 12, 16 and 20 of the lowercased identifier)
  and normalizing the result again returns it unchanged. For every input whose length
  after stripping hyphens and lowercasing differs from 32, it raises the length error.
\<close>

theorem format_page_id_idempotent:
  "(length (filter (\<lambda>c. c \<noteq> 45) x) = 32 \<and> list_all is_hex (filter (\<lambda>c. c \<noteq> 45) x) \<longrightarrow>
      (\<exists>d. format_page_id ul x = Inr d \<and> format_page_id ul d = Inr d
          \<and> filter (\<lambda>c. c \<noteq> 45) d = map lower_ascii (filter (\<lambda>c. c \<noteq> 45) x)
          \<and> length d = 36 \<and> d ! 8 = 45 \<and> d ! 13 = 45 \<and> d ! 18 = 45 \<and> d ! 23 = 45))
   \<and> (length (clean_id ul x) \<noteq> 32 \<longrightarrow>
        format_page_id ul x = Inl (ValueError (ascii ''Invalid page ID length: '' @ x)))"
proof (intro conjI impI)
  assume "length (clean_id ul x) \<noteq> 32"
  then show "format_page_id ul x = Inl (ValueError (ascii ''Invalid page ID length: '' @ x))"
    by (simp add: format_page_id_dashed)
next
  let ?s = "filter (\<lambda>c. c \<noteq> 45) x"
  let ?c = "map lower_ascii ?s"
  assume h: "length ?s = 32 \<and> list_all is_hex ?s"
  then have asc: "list_all (\<lambda>c. c < 128) ?s"
    by (metis (mono_tags, lifting) list_all_iff is_hex_facts)
  have cl: "clean_id ul x = ?c" unfolding clean_id_def by (rule lower_ascii_text[OF asc])
  have len: "length ?c = 32" using h by simp
  have nh: "list_all (\<lambda>c. c \<noteq> 45) ?c" using h
    unfolding list_all_iff by (auto dest: is_hex_facts)
  have casc: "list_all (\<lambda>c. c < 128) ?c" using h
    unfolding list_all_iff by (auto dest: is_hex_facts)
  have idem: "map lower_ascii ?c = ?c" using h
    unfolding list_all_iff by (auto dest: is_hex_facts)
  note dp = dashed_props[OF len nh]
  have first: "format_page_id ul x = Inr (dashed ?c)"
    using len by (simp add: format_page_id_dashed cl)
  have "clean_id ul (dashed ?c) = ?c"
    unfolding clean_id_def dp(1) using lower_ascii_text[OF casc] idem by simp
  then have second: "format_page_id ul (dashed ?c) = Inr (dashed ?c)"
    using len by (simp add: format_page_id_dashed)
  show "\<exists>d. format_page_id ul x = Inr d \<and> format_page_id ul d = Inr d
          \<and> filter (\<lambda>c. c \<noteq> 45) d = ?c
          \<and> length d = 36 \<and> d ! 8 = 45 \<and> d ! 13 = 45 \<and> d ! 18 = 45 \<and> d ! 23 = 45"
    using first second dp by blast
qed

text \<open>
  A compact identifier is normalized, its dashed form is a fixed point, and a short
  identifier is refused.
\<close>

theorem format_page_id_idempotent_witness:
  "format_page_id unicode_lower (ascii ''0123456789ABCDEFabcdef0123456789'')
      = Inr (ascii ''01234567-89ab-cdef-abcd-ef0123456789'')
   \<and> format_page_id unicode_lower (ascii ''01234567-89ab-cdef-abcd-ef0123456789'')
      = Inr (ascii ''01234567-89ab-cdef-abcd-ef0123456789'')
   \<and> format_page_id unicode_lower (ascii ''abc123'')
      = Inl (ValueError (ascii ''Invalid page ID length: abc123''))"
proof -
  let ?x = "ascii ''0123456789ABCDEFabcdef0123456789''"
  let ?y = "ascii ''abc123''"
  have h: "length (filter (\<lambda>c. c \<noteq> 45) ?x) = 32 \<and> list_all is_hex (filter (\<lambda>c. c \<noteq> 45) ?x)"
    by (simp add: ascii_def is_hex_def)
  have n: "length (clean_id unicode_lower ?y) \<noteq> 32"
    by (simp add: clean_id_def lower_def ascii_def)
  from mp[OF conjunct1[OF format_page_id_idempotent[of ?x unicode_lower]] h]
  obtain d where d: "format_page_id unicode_lower ?x = Inr d" "format_page_id unicode_lower d = Inr d"
    by blast
  have e: "format_page_id unicode_lower ?x = Inr (ascii ''01234567-89ab-cdef-abcd-ef0123456789'')"
    by (simp add: format_page_id_def clean_id_def lower_def lower_ascii_def slice_def ascii_def)
  with d have "d = ascii ''01234567-89ab-cdef-abcd-ef0123456789''" by simp
  with d e mp[OF conjunct2[OF format_page_id_idempotent[of ?y unicode_lower]] n]
  show ?thesis by (simp add: ascii_def)
qed

text \<open>
  The claim C5 as stated measures the length of the hyphen-stripped input. The code
  measures it after lowercasing, and lowercasing can lengthen a string: \<open>U+0130\<close>
  followed by thirty \<open>a\<close> has 31 characters without hyphens, and is accepted.
\<close>

theorem format_page_id_stripped_length_counterexample:
  "length (filter (\<lambda>c. c \<noteq> 45) ((304::nat) # replicate 30 97)) \<noteq> 32
   \<and> format_page_id unicode_lower (304 # replicate 30 97) =
       Inr ([105, 775] @ replicate 6 97 @ [45] @ replicate 4 97 @ [45] @ replicate 4 97 @ [45]
             @ replicate 4 97 @ [45] @ replicate 12 97)"
  by (simp add: format_page_id_def clean_id_def lower_def unicode_lower_def lower_full_def
        lower_ascii_def slice_def numeral_nat)

text \<open>
  Claim C10, as amended. Normalization raises exactly when the length of the
  hyphen-stripped, lowercased input differs from 32. When that length is 32 it returns
  the lowercased characters in the 8-4-4-4-12 grouping, whatever they are: nothing checks
  that they are hexadecimal digits. For ASCII input the lowercased form has the
  characters of the hyphen-stripped input, one for one.
\<close>

theorem format_page_id_length_only:
  "(isl (format_page_id ul x) \<longleftrightarrow> length (clean_id ul x) \<noteq> 32)
   \<and> (length (clean_id ul x) = 32 \<longrightarrow>
        format_page_id ul x =
          Inr (take 8 (clean_id ul x) @ [45] @ take 4 (drop 8 (clean_id ul x)) @ [45]
               @ take 4 (drop 12 (clean_id ul x)) @ [45] @ take 4 (drop 16 (clean_id ul x)) @ [45]
               @ drop 20 (clean_id ul x)))
   \<and> (list_all (\<lambda>c. c < 128) x \<longrightarrow>
        clean_id ul x = map lower_ascii (filter (\<lambda>c. c \<noteq> 45) x))"
proof (intro conjI impI)
  show "isl (format_page_id ul x) \<longleftrightarrow> length (clean_id ul x) \<noteq> 32"
    by (simp add: format_page_id_def Let_def)
next
  assume "length (clean_id ul x) = 32"
  then show "format_page_id ul x =
          Inr (take 8 (clean_id ul x) @ [45] @ take 4 (drop 8 (clean_id ul x)) @ [45]
               @ take 4 (drop 12 (clean_id ul x)) @ [45] @ take 4 (drop 16 (clean_id ul x)) @ [45]
               @ drop 20 (clean_id ul x))"
    by (simp add: format_page_id_def Let_def slice_def)
next
  assume "list_all (\<lambda>c. c < 128) x"
  then have "list_all (\<lambda>c. c < 128) (filter (\<lambda>c. c \<noteq> 45) x)"
    by (simp add: list_all_iff)
  then show "clean_id ul x = map lower_ascii (filter (\<lambda>c. c \<noteq> 45) x)"
    unfolding clean_id_def by (rule lower_ascii_text)
qed

text \<open>
  Thirty-two letters that are not hexadecimal digits are accepted and lowercased.
\<close>

theorem format_page_id_length_only_witness:
  "format_page_id unicode_lower (ascii ''GHIJKLMN-OPQR-STUV-WXYZ-ghijklmnopqr'')
      = Inr (ascii ''ghijklmn-opqr-stuv-wxyz-ghijklmnopqr'')
   \<and> clean_id unicode_lower (ascii ''GHIJKLMN-OPQR-STUV-WXYZ-ghijklmnopqr'')
      = ascii ''ghijklmnopqrstuvwxyzghijklmnopqr''"
proof -
  let ?x = "ascii ''GHIJKLMN-OPQR-STUV-WXYZ-ghijklmnopqr''"
  have a: "list_all (\<lambda>c. c < 128) ?x" by (simp add: ascii_def)
  have c: "clean_id unicode_lower ?x = ascii ''ghijklmnopqrstuvwxyzghijklmnopqr''"
    using mp[OF conjunct2[OF conjunct2[OF format_page_id_length_only[of unicode_lower ?x]]] a]
    by (simp add: ascii_def lower_ascii_def)
  then have l: "length (clean_id unicode_lower ?x) = 32" by (simp add: ascii_def)
  show ?thesis
    using mp[OF conjunct1[OF conjunct2[OF format_page_id_length_only[of unicode_lower ?x]]] l] c
    by (simp add: ascii_def)
qed

text \<open>
  The claim C10 as stated promises success for every string whose hyphen-stripped form
  has exactly 32 characters. \<open>U+0130\<close> followed by thirty-one \<open>a\<close> is such a string;
  lowercased it has 33 code points and is refused.
\<close>

theorem format_page_id_32_chars_counterexample:
  "length (filter (\<lambda>c. c \<noteq> 45) ((304::nat) # replicate 31 97)) = 32
   \<and> format_page_id unicode_lower (304 # replicate 31 97) =
       Inl (ValueError (ascii ''Invalid page ID length: '' @ 304 # replicate 31 97))"
  by (simp add: format_page_id_def clean_id_def lower_def unicode_lower_def lower_full_def
        lower_ascii_def slice_def numeral_nat)

subsection \<open>Page updater\<close>

lemma send_log: "send srv rq s = (rp, s1) \<Longrightarrow> snd s1 = snd s @ [(rq, rp)] \<and> rp = fst (srv (fst s) rq)"
  by (auto simp: send_def split: prod.splits)

lemma delete_each_log:
  "delete_each srv blocks s = (r, s') \<Longrightarrow>
   \<exists>ids. map fst (snd s') = map fst (snd s) @ map DeleteBlock ids
     \<and> map Inr ids = map (\<lambda>b. subscript b (ascii ''id'')) (take (length ids) blocks)
     \<and> (r = Inr () \<longrightarrow> length ids = length blocks)"
proof (induction blocks arbitrary: s)
  case Nil
  then show ?case by auto
next
  case (Cons block blocks)
  show ?case
  proof (cases "subscript block (ascii ''id'')")
    case (Inl e)
    with Cons.prems have "r = Inl e" "s' = s" by auto
    then show ?thesis by (intro exI[of _ "[]"]) simp
  next
    case (Inr block_id)
    obtain rp s1 where sd: "send srv (DeleteBlock block_id) s = (rp, s1)" by (metis surj_pair)
    note lg = send_log[OF sd]
    show ?thesis
    proof (cases rp)
      case NoReply
      with Cons.prems Inr sd have "r = Inl ConnectionError" "s' = s1" by auto
      then show ?thesis using lg Inr by (intro exI[of _ "[block_id]"]) simp
    next
      case (Response status body)
      with Cons.prems Inr sd have "delete_each srv blocks s1 = (r, s')" by auto
      from Cons.IH[OF this] obtain ids where
        ids: "map fst (snd s') = map fst (snd s1) @ map DeleteBlock ids"
          "map Inr ids = map (\<lambda>b. subscript b (ascii ''id'')) (take (length ids) blocks)"
          "r = Inr () \<longrightarrow> length ids = length blocks" by blast
      show ?thesis using ids lg Inr by (intro exI[of _ "block_id # ids"]) simp
    qed
  qed
qed

lemma take_prefix_ext:
  "xs = b @ rest \<Longrightarrow> c = take (length c) rest \<Longrightarrow> b @ c = take (length (b @ c)) xs"
  by simp

lemma append_batches_log:
  "append_batches srv page_id new_blocks i s = (r, s') \<Longrightarrow>
   \<exists>chunks. map fst (snd s') = map fst (snd s) @ map (PatchChildren page_id) chunks
     \<and> list_all (\<lambda>c. c \<noteq> [] \<and> length c \<le> 100) chunks
     \<and> concat chunks = take (length (concat chunks)) (drop i new_blocks)
     \<and> (r = Inr () \<longrightarrow> concat chunks = drop i new_blocks)"
proof (induction srv page_id new_blocks i s rule: append_batches.induct)
  case (1 srv page_id new_blocks i s)
  show ?case
  proof (cases "i < length new_blocks")
    case False
    with "1.prems" have "r = Inr ()" "s' = s" by auto
    then show ?thesis using False by (intro exI[of _ "[]"]) simp
  next
    case True
    let ?batch = "slice i (i + 100) new_blocks"
    obtain rp s1 where sd: "send srv (PatchChildren page_id ?batch) s = (rp, s1)" by (metis surj_pair)
    note lg = send_log[OF sd]
    have bne: "?batch \<noteq> [] \<and> length ?batch \<le> 100" using True by (simp add: slice_def)
    have btk: "?batch = take (length ?batch) (drop i new_blocks)" by (simp add: slice_def min_def)
    have stop: "\<exists>chunks. map fst (snd s1) = map fst (snd s) @ map (PatchChildren page_id) chunks
       \<and> list_all (\<lambda>c. c \<noteq> [] \<and> length c \<le> 100) chunks
       \<and> concat chunks = take (length (concat chunks)) (drop i new_blocks)"
      using lg bne btk by (intro exI[of _ "[?batch]"]) simp
    show ?thesis
    proof (cases rp)
      case NoReply
      with "1.prems" True sd have "r = Inl ConnectionError" "s' = s1" by auto
      then show ?thesis using stop by auto
    next
      case (Response status body)
      show ?thesis
      proof (cases "raise_for_status status")
        case (Inl e)
        with "1.prems" True sd Response have "r = Inl e" "s' = s1" by auto
        then show ?thesis using stop by auto
      next
        case (Inr u)
        with "1.prems" True sd Response
        have rec: "append_batches srv page_id new_blocks (i + 100) s1 = (r, s')" by auto
        from "1.IH"[OF True sd[symmetric] Response Inr rec]
        obtain chunks where ch:
          "map fst (snd s') = map fst (snd s1) @ map (PatchChildren page_id) chunks"
          "list_all (\<lambda>c. c \<noteq> [] \<and> length c \<le> 100) chunks"
          "concat chunks = take (length (concat chunks)) (drop (i + 100) new_blocks)"
          "r = Inr () \<longrightarrow> concat chunks = drop (i + 100) new_blocks" by blast
        have sp: "drop i new_blocks = ?batch @ drop (i + 100) new_blocks"
          by (simp add: slice_def) (metis append_take_drop_id drop_drop add.commute)
        have "?batch @ concat chunks = take (length (?batch @ concat chunks)) (drop i new_blocks)"
          by (rule take_prefix_ext[OF sp ch(3)])
        then show ?thesis using ch lg bne sp
          by (intro exI[of _ "?batch # chunks"]) simp
      qed
    qed
  qed
qed

lemma delete_all_blocks_log:
  assumes "delete_all_blocks srv page_id s = (r, s')"
  shows "\<exists>ids. map fst (snd s') = map fst (snd s) @ GetChildren page_id [] # map DeleteBlock ids
     \<and> (r = Inr () \<longrightarrow>
          (\<exists>status data results blocks.
              fst (srv (fst s) (GetChildren page_id [])) = Response status (Some data)
            \<and> raise_for_status status = Inr ()
            \<and> dict_get data (ascii ''results'') (JArr []) = Inr results
            \<and> iterate results = Inr blocks
            \<and> map (\<lambda>b. subscript b (ascii ''id'')) blocks = map Inr ids))"
proof -
  obtain rp s1 where sd: "send srv (GetChildren page_id []) s = (rp, s1)" by (metis surj_pair)
  note lg = send_log[OF sd]
  have stop: "r \<noteq> Inr () \<Longrightarrow> s' = s1 \<Longrightarrow> ?thesis"
    using lg by (intro exI[of _ "[]"]) simp
  show ?thesis
  proof (cases rp)
    case NoReply
    with assms sd have "r = Inl ConnectionError" "s' = s1" by (auto simp: delete_all_blocks_def)
    then show ?thesis using stop by simp
  next
    case (Response status body)
    show ?thesis
    proof (cases "raise_for_status status")
      case (Inl e)
      with assms sd Response have "r = Inl e" "s' = s1" by (auto simp: delete_all_blocks_def)
      then show ?thesis using stop by simp
    next
      case ok: (Inr u)
      show ?thesis
      proof (cases body)
        case None
        with assms sd Response ok have "r = Inl JSONDecodeError" "s' = s1"
          by (auto simp: delete_all_blocks_def)
        then show ?thesis using stop by simp
      next
        case (Some data)
        show ?thesis
        proof (cases "dict_get data (ascii ''results'') (JArr [])")
          case (Inl e)
          with assms sd Response ok Some have "r = Inl e" "s' = s1"
            by (auto simp: delete_all_blocks_def)
          then show ?thesis using stop by simp
        next
          case res: (Inr results)
          show ?thesis
          proof (cases "iterate results")
            case (Inl e)
            with assms sd Response ok Some res have "r = Inl e" "s' = s1"
              by (auto simp: delete_all_blocks_def)
            then show ?thesis using stop by simp
          next
            case (Inr blocks)
            with assms sd Response ok Some res have "delete_each srv blocks s1 = (r, s')"
              by (auto simp: delete_all_blocks_def)
            from delete_each_log[OF this] obtain ids where
              ids: "map fst (snd s') = map fst (snd s1) @ map DeleteBlock ids"
                "map Inr ids = map (\<lambda>b. subscript b (ascii ''id'')) (take (length ids) blocks)"
                "r = Inr () \<longrightarrow> length ids = length blocks" by blast
            have "fst (srv (fst s) (GetChildren page_id [])) = Response status (Some data)"
              using lg Response Some by simp
            then show ?thesis using ids lg ok res Inr
              by (intro exI[of _ ids]) auto
          qed
        qed
      qed
    qed
  qed
qed

text \<open>
  Claim C2. In every page replacement the requests the updater adds to the log are, in
  this order: one listing of the page's children without any query parameter (no page
  size, no cursor); then delete requests; then append requests for the page, each
  carrying a non-empty batch of at most 100 blocks that continues the new block sequence
  where the previous batch ended. When the replacement succeeds, there is exactly one
  delete request per block of the listing's \<open>results\<close>, in the listing's order and for
  that block's \<open>id\<close>, and the batches together are the whole new block sequence in the
  converter's order.
\<close>

theorem update_notion_page_protocol:
  assumes "update_notion_page srv page_id new_blocks s = (r, s')"
  shows "\<exists>ids chunks.
       map fst (snd s') = map fst (snd s) @ GetChildren page_id [] # map DeleteBlock ids
                            @ map (PatchChildren page_id) chunks
     \<and> list_all (\<lambda>c. c \<noteq> [] \<and> length c \<le> 100) chunks
     \<and> concat chunks = take (length (concat chunks)) new_blocks
     \<and> (r = Inr () \<longrightarrow>
          concat chunks = new_blocks
        \<and> (\<exists>status data results blocks.
              fst (srv (fst s) (GetChildren page_id [])) = Response status (Some data)
            \<and> raise_for_status status = Inr ()
            \<and> dict_get data (ascii ''results'') (JArr []) = Inr results
            \<and> iterate results = Inr blocks
            \<and> map (\<lambda>b. subscript b (ascii ''id'')) blocks = map Inr ids))"
proof -
  obtain r1 s1 where d: "delete_all_blocks srv page_id s = (r1, s1)" by (metis surj_pair)
  from delete_all_blocks_log[OF d] obtain ids where
    ids: "map fst (snd s1) = map fst (snd s) @ GetChildren page_id [] # map DeleteBlock ids"
      "r1 = Inr () \<longrightarrow>
          (\<exists>status data results blocks.
              fst (srv (fst s) (GetChildren page_id [])) = Response status (Some data)
            \<and> raise_for_status status = Inr ()
            \<and> dict_get data (ascii ''results'') (JArr []) = Inr results
            \<and> iterate results = Inr blocks
            \<and> map (\<lambda>b. subscript b (ascii ''id'')) blocks = map Inr ids)" by blast
  show ?thesis
  proof (cases r1)
    case (Inl e)
    with assms d have "r = Inl e" "s' = s1" by (auto simp: update_notion_page_def)
    then show ?thesis using ids(1) by (intro exI[of _ ids] exI[of _ "[]"]) simp
  next
    case (Inr u)
    with assms d have "append_batches srv page_id new_blocks 0 s1 = (r, s')"
      by (auto simp: update_notion_page_def)
    from append_batches_log[OF this] obtain chunks where
      ch: "map fst (snd s') = map fst (snd s1) @ map (PatchChildren page_id) chunks"
        "list_all (\<lambda>c. c \<noteq> [] \<and> length c \<le> 100) chunks"
        "concat chunks = take (length (concat chunks)) (drop 0 new_blocks)"
        "r = Inr () \<longrightarrow> concat chunks = drop 0 new_blocks" by blast
    show ?thesis using ch ids Inr
      by (intro exI[of _ ids] exI[of _ chunks]) simp
  qed
qed

text \<open>
  A replacement of a page with two blocks by 101 new blocks: one listing, two deletes,
  a batch of 100 and a batch of one.
\<close>

theorem update_notion_page_protocol_witness:
  "update_notion_page scripted (ascii ''page'') (replicate 101 JNull)
       ([two_block_listing, Response 200 None, Response 200 None, Response 200 None,
         Response 200 None], [])
   = (Inr (), ([],
        [(GetChildren (ascii ''page'') [], two_block_listing),
         (DeleteBlock (JStr (ascii ''b1'')), Response 200 None),
         (DeleteBlock (JStr (ascii ''b2'')), Response 200 None),
         (PatchChildren (ascii ''page'') (replicate 100 JNull), Response 200 None),
         (PatchChildren (ascii ''page'') [JNull], Response 200 None)]))
   \<and> (\<exists>ids chunks.
         [GetChildren (ascii ''page'') [], DeleteBlock (JStr (ascii ''b1'')),
          DeleteBlock (JStr (ascii ''b2'')), PatchChildren (ascii ''page'') (replicate 100 JNull),
          PatchChildren (ascii ''page'') [JNull]]
           = GetChildren (ascii ''page'') [] # map DeleteBlock ids
               @ map (PatchChildren (ascii ''page'')) chunks
       \<and> list_all (\<lambda>c. c \<noteq> [] \<and> length c \<le> 100) chunks
       \<and> concat chunks = replicate 101 JNull)"
proof -
  have run: "update_notion_page scripted (ascii ''page'') (replicate 101 JNull)
       ([two_block_listing, Response 200 None, Response 200 None, Response 200 None,
         Response 200 None], [])
   = (Inr (), ([],
        [(GetChildren (ascii ''page'') [], two_block_listing),
         (DeleteBlock (JStr (ascii ''b1'')), Response 200 None),
         (DeleteBlock (JStr (ascii ''b2'')), Response 200 None),
         (PatchChildren (ascii ''page'') (replicate 100 JNull), Response 200 None),
         (PatchChildren (ascii ''page'') [JNull], Response 200 None)]))"
    apply (simp add: update_notion_page_def delete_all_blocks_def send_def scripted_def
        two_block_listing_def raise_for_status_def dict_get_def iterate_def subscript_def
        ascii_def del: append_batches.simps)
    apply (subst append_batches.simps)
    apply (simp add: send_def scripted_def raise_for_status_def slice_def del: append_batches.simps)
    apply (subst append_batches.simps)
    apply (simp add: send_def scripted_def raise_for_status_def slice_def del: append_batches.simps)
    apply (subst append_batches.simps)
    apply simp
    done
  from update_notion_page_protocol[OF run] have "\<exists>ids chunks.
         [GetChildren (ascii ''page'') [], DeleteBlock (JStr (ascii ''b1'')),
          DeleteBlock (JStr (ascii ''b2'')), PatchChildren (ascii ''page'') (replicate 100 JNull),
          PatchChildren (ascii ''page'') [JNull]]
           = GetChildren (ascii ''page'') [] # map DeleteBlock ids
               @ map (PatchChildren (ascii ''page'')) chunks
       \<and> list_all (\<lambda>c. c \<noteq> [] \<and> length c \<le> 100) chunks
       \<and> concat chunks = replicate 101 JNull"
    by simp blast
  with run show ?thesis by (simp only:)
qed

text \<open>
  Claim C1 says that every failed call to the content store aborts the run. A failed
  listing and a failed append do: \<open>raise_for_status\<close> follows both. A delete request
  that the store answers with status 500 does not: its response is dropped, the run goes
  on to append the new blocks and ends successfully, with the undeleted block still on
  the page.
\<close>

theorem update_notion_page_delete_failure_ignored:
  "update_notion_page scripted (ascii ''page'') [JNull]
       ([one_block_listing, Response 500 None, Response 200 None], [])
   = (Inr (), ([],
        [(GetChildren (ascii ''page'') [], one_block_listing),
         (DeleteBlock (JStr (ascii ''b1'')), Response 500 None),
         (PatchChildren (ascii ''page'') [JNull], Response 200 None)]))
   \<and> update_notion_page scripted (ascii ''page'') [JNull]
       ([Response 500 None, Response 200 None, Response 200 None], [])
   = (Inl (HTTPError 500), ([Response 200 None, Response 200 None],
        [(GetChildren (ascii ''page'') [], Response 500 None)]))
   \<and> update_notion_page scripted (ascii ''page'') [JNull]
       ([one_block_listing, Response 200 None, Response 500 None], [])
   = (Inl (HTTPError 500), ([],
        [(GetChildren (ascii ''page'') [], one_block_listing),
         (DeleteBlock (JStr (ascii ''b1'')), Response 200 None),
         (PatchChildren (ascii ''page'') [JNull], Response 500 None)]))"
  by (simp add: update_notion_page_def delete_all_blocks_def send_def scripted_def
        one_block_listing_def raise_for_status_def dict_get_def iterate_def subscript_def
        ascii_def slice_def)

subsection \<open>Content reader\<close>

lemma send_scripted:
  "send scripted rq (r # rs, lg) = (r, (rs, lg @ [(rq, r)]))"
  by (simp add: send_def scripted_def)

lemma page_fields:
  "dict_get (JObj [(ascii ''results'', JArr items), (ascii ''has_more'', has_more),
                   (ascii ''next_cursor'', next_cursor)]) (ascii ''results'') d = Inr (JArr items)"
  "dict_get (JObj [(ascii ''results'', JArr items), (ascii ''has_more'', has_more),
                   (ascii ''next_cursor'', next_cursor)]) (ascii ''has_more'') d = Inr has_more"
  "dict_get (JObj [(ascii ''results'', JArr items), (ascii ''has_more'', has_more),
                   (ascii ''next_cursor'', next_cursor)]) (ascii ''next_cursor'') d = Inr next_cursor"
  by (simp_all add: dict_get_def ascii_def)

lemma fetch_blocks_page:
  "fetch_blocks scripted page_id blocks cursor (page_reply items has_more next_cursor # rs, lg) =
     (if truthy has_more
      then fetch_blocks scripted page_id (blocks @ items) next_cursor
             (rs, lg @ paged_exchanges page_id cursor [(items, has_more, next_cursor)])
      else Some (Inr (blocks @ items),
             (rs, lg @ paged_exchanges page_id cursor [(items, has_more, next_cursor)])))"
  apply (subst fetch_blocks.simps)
  apply (simp only: send_scripted)
  apply (simp add: page_reply_def raise_for_status_def page_fields iterate_def)
  done

lemma fetch_blocks_pages:
  assumes "list_all (\<lambda>p. truthy (fst (snd p))) pages" and "\<not> truthy last_more"
  shows "fetch_blocks scripted page_id blocks cursor
           (map (\<lambda>p. page_reply (fst p) (fst (snd p)) (snd (snd p))) pages
              @ page_reply last_items last_more last_cursor # rest, lg)
         = Some (Inr (blocks @ concat (map fst pages) @ last_items),
             (rest, lg @ paged_exchanges page_id cursor
                           (pages @ [(last_items, last_more, last_cursor)])))"
  using assms
proof (induction pages arbitrary: blocks cursor lg)
  case Nil
  then show ?case by (simp add: fetch_blocks_page)
next
  case (Cons p pages)
  obtain items more nc where p: "p = (items, more, nc)" by (cases p) auto
  from Cons.prems have t: "truthy more" and rest: "list_all (\<lambda>p. truthy (fst (snd p))) pages"
    by (simp_all add: p)
  show ?case
    using Cons.IH[OF rest Cons.prems(2), of "blocks @ items" nc] t
    by (simp add: p fetch_blocks_page)
qed

text \<open>
  Claim C7. For every sequence of response pages of which all but the last have a truthy
  \<open>has_more\<close>, the reader makes one request per page, each asking for 100 blocks and
  carrying the previous page's \<open>next_cursor\<close>, stops at the page whose \<open>has_more\<close> is
  falsy, and has then gathered the blocks of all pages in their original order; only then
  are the gathered blocks rendered.
\<close>

theorem get_notion_page_content_pagination:
  assumes "list_all (\<lambda>p. truthy (fst (snd p))) pages" and "\<not> truthy last_more"
  shows "fetch_blocks scripted page_id [] JNull
           (map (\<lambda>p. page_reply (fst p) (fst (snd p)) (snd (snd p))) pages
              @ page_reply last_items last_more last_cursor # rest, lg)
         = Some (Inr (concat (map fst pages) @ last_items),
             (rest, lg @ paged_exchanges page_id JNull
                           (pages @ [(last_items, last_more, last_cursor)])))
      \<and> get_notion_page_content scripted page_id
           (map (\<lambda>p. page_reply (fst p) (fst (snd p)) (snd (snd p))) pages
              @ page_reply last_items last_more last_cursor # rest, lg)
         = Some (case render_blocks (concat (map fst pages) @ last_items) [] of
                   Inl e \<Rightarrow> Inl e
                 | Inr content_parts \<Rightarrow> Inr (join_nl content_parts),
             (rest, lg @ paged_exchanges page_id JNull
                           (pages @ [(last_items, last_more, last_cursor)])))"
proof -
  note f = fetch_blocks_pages[OF assms, of page_id "[]" JNull last_items last_cursor rest lg]
  show ?thesis
    unfolding get_notion_page_content_def using f
    by (simp split: sum.splits)
qed

text \<open>
  Three pages with \<open>has_more\<close> true, true and false: the four blocks of the three pages
  are rendered in their original order, after three requests that follow the cursors.
\<close>

theorem get_notion_page_content_pagination_witness:
  "get_notion_page_content scripted (ascii ''page'')
      ([page_reply [stored_block (ascii ''paragraph'') (ascii ''a'')] (JBool True) (JStr (ascii ''c1'')),
        page_reply [stored_block (ascii ''heading_1'') (ascii ''b''),
                    stored_block (ascii ''paragraph'') (ascii ''c'')] (JBool True) (JStr (ascii ''c2'')),
        page_reply [stored_block (ascii ''paragraph'') (ascii ''d'')] (JBool False) JNull], [])
   = Some (Inr (ascii ''a'' @ [10] @ ascii ''# b'' @ [10] @ ascii ''c'' @ [10] @ ascii ''d''),
       ([],
        [(GetChildren (ascii ''page'') [(ascii ''page_size'', JNum 100)],
          page_reply [stored_block (ascii ''paragraph'') (ascii ''a'')] (JBool True) (JStr (ascii ''c1''))),
         (GetChildren (ascii ''page'')
            [(ascii ''page_size'', JNum 100), (ascii ''start_cursor'', JStr (ascii ''c1''))],
          page_reply [stored_block (ascii ''heading_1'') (ascii ''b''),
                      stored_block (ascii ''paragraph'') (ascii ''c'')] (JBool True) (JStr (ascii ''c2''))),
         (GetChildren (ascii ''page'')
            [(ascii ''page_size'', JNum 100), (ascii ''start_cursor'', JStr (ascii ''c2''))],
          page_reply [stored_block (ascii ''paragraph'') (ascii ''d'')] (JBool False) JNull)]))"
proof -
  let ?p1 = "([stored_block (ascii ''paragraph'') (ascii ''a'')], JBool True, JStr (ascii ''c1''))"
  let ?p2 = "([stored_block (ascii ''heading_1'') (ascii ''b''),
               stored_block (ascii ''paragraph'') (ascii ''c'')], JBool True, JStr (ascii ''c2''))"
  have h1: "list_all (\<lambda>p. truthy (fst (snd p))) [?p1, ?p2]" by simp
  have h2: "\<not> truthy (JBool False)" by simp
  have r: "render_blocks [stored_block (ascii ''paragraph'') (ascii ''a''),
             stored_block (ascii ''heading_1'') (ascii ''b''),
             stored_block (ascii ''paragraph'') (ascii ''c''),
             stored_block (ascii ''paragraph'') (ascii ''d'')] []
        = Inr [ascii ''a'', ascii ''# b'', ascii ''c'', ascii ''d'']"
    by (simp add: stored_block_def dict_get_def dict_get_value_def iterate_def content_line_def
          ascii_def)
  from conjunct2[OF get_notion_page_content_pagination[OF h1 h2,
        of "ascii ''page''" "[stored_block (ascii ''paragraph'') (ascii ''d'')]" JNull "[]" "[]"]]
  show ?thesis by (simp del: render_blocks.simps add: r) (simp add: ascii_def)
qed

subsection \<open>Orchestrator and tracker\<close>

lemma content_only_simps:
  "content_only []"
  "content_only (a @ b) = (content_only a \<and> content_only b)"
  "content_only [(GetChildren p ps, rp)]"
  "content_only [(DeleteBlock bid, rp)]"
  "content_only [(PatchChildren p bs, rp)]"
  by (simp_all add: content_only_def)

lemma send_ext: "send srv rq s = (rp, s1) \<Longrightarrow> snd s1 = snd s @ [(rq, rp)]"
  by (auto simp: send_def split: prod.splits)

lemma fetch_blocks_content:
  "fetch_blocks srv page_id blocks cursor s = Some y \<Longrightarrow>
   \<exists>tr. snd (snd y) = snd s @ tr \<and> content_only tr"
proof (induction rule: fetch_blocks.raw_induct[rotated 1, consumes 1])
  case (1 fetch_blocks srv page_id blocks start_cursor s y)
  define rq where "rq = GetChildren page_id ((ascii ''page_size'', JNum 100)
                # (if truthy start_cursor then [(ascii ''start_cursor'', start_cursor)] else []))"
  obtain rp s1 where sd: "send srv rq s = (rp, s1)" by (metis surj_pair)
  have one: "snd s1 = snd s @ [(rq, rp)]" by (rule send_ext[OF sd])
  have c1: "content_only [(rq, rp)]" by (simp add: rq_def content_only_def)
  have st: "\<exists>tr. snd s1 = snd s @ tr \<and> content_only tr" using one c1 by blast
  have go: "\<exists>tr. snd (snd y) = snd s @ tr \<and> content_only tr"
    if "fetch_blocks srv page_id b c s1 = Some y" for b c
  proof -
    from "1"(1)[OF that] obtain tr where "snd (snd y) = snd s1 @ tr" "content_only tr" by blast
    then have "snd (snd y) = snd s @ ((rq, rp) # tr) \<and> content_only ((rq, rp) # tr)"
      using one c1 by (simp add: content_only_def)
    then show ?thesis by blast
  qed
  from "1"(2)[folded rq_def] show ?case unfolding sd
    by (auto split: reply.splits sum.splits option.splits if_splits intro: st go)
qed

lemma content_ext:
  "snd s1 = snd s @ tr1 \<Longrightarrow> content_only tr1 \<Longrightarrow> \<exists>tr. snd s2 = snd s1 @ tr \<and> content_only tr
   \<Longrightarrow> \<exists>tr. snd s2 = snd s @ tr \<and> content_only tr"
  by (auto simp: content_only_def)

lemma get_notion_page_content_content:
  assumes "get_notion_page_content srv page_id s = Some (r, s')"
  shows "\<exists>tr. snd s' = snd s @ tr \<and> content_only tr"
proof -
  from assms obtain y where y: "fetch_blocks srv page_id [] JNull s = Some y" and s': "snd y = s'"
    by (auto simp: get_notion_page_content_def split: option.splits prod.splits sum.splits)
  from fetch_blocks_content[OF y] s' show ?thesis by simp
qed

lemma delete_each_content:
  "delete_each srv blocks s = (r, s') \<Longrightarrow> \<exists>tr. snd s' = snd s @ tr \<and> content_only tr"
proof (induction blocks arbitrary: s)
  case Nil
  then show ?case by (auto simp: content_only_def)
next
  case (Cons block blocks)
  show ?case
  proof (cases "subscript block (ascii ''id'')")
    case (Inl e)
    with Cons.prems show ?thesis by (auto simp: content_only_def)
  next
    case (Inr block_id)
    obtain rp s1 where sd: "send srv (DeleteBlock block_id) s = (rp, s1)" by (metis surj_pair)
    have one: "snd s1 = snd s @ [(DeleteBlock block_id, rp)]" by (rule send_ext[OF sd])
    have c1: "content_only [(DeleteBlock block_id, rp)]" by (simp add: content_only_def)
    show ?thesis
    proof (cases rp)
      case NoReply
      with Cons.prems Inr sd have "s' = s1" by auto
      then show ?thesis using one c1 by blast
    next
      case (Response status body)
      with Cons.prems Inr sd have "delete_each srv blocks s1 = (r, s')" by auto
      from content_ext[OF one c1 Cons.IH[OF this]] show ?thesis .
    qed
  qed
qed

lemma delete_all_blocks_content:
  assumes "delete_all_blocks srv page_id s = (r, s')"
  shows "\<exists>tr. snd s' = snd s @ tr \<and> content_only tr"
proof -
  obtain rp s1 where sd: "send srv (GetChildren page_id []) s = (rp, s1)" by (metis surj_pair)
  have one: "snd s1 = snd s @ [(GetChildren page_id [], rp)]" by (rule send_ext[OF sd])
  have c1: "content_only [(GetChildren page_id [], rp)]" by (simp add: content_only_def)
  have st: "s' = s1 \<Longrightarrow> ?thesis" using one c1 by blast
  have go: "delete_each srv blocks s1 = (r, s') \<Longrightarrow> ?thesis" for blocks
    using content_ext[OF one c1 delete_each_content] by blast
  from assms show ?thesis unfolding delete_all_blocks_def sd
    by (auto split: reply.splits sum.splits option.splits intro: st go)
qed

lemma append_batches_content:
  "append_batches srv page_id new_blocks i s = (r, s') \<Longrightarrow>
   \<exists>tr. snd s' = snd s @ tr \<and> content_only tr"
proof (induction srv page_id new_blocks i s rule: append_batches.induct)
  case (1 srv page_id new_blocks i s)
  show ?case
  proof (cases "i < length new_blocks")
    case False
    with "1.prems" show ?thesis by (auto simp: content_only_def)
  next
    case True
    let ?rq = "PatchChildren page_id (slice i (i + 100) new_blocks)"
    obtain rp s1 where sd: "send srv ?rq s = (rp, s1)" by (metis surj_pair)
    have one: "snd s1 = snd s @ [(?rq, rp)]" by (rule send_ext[OF sd])
    have c1: "content_only [(?rq, rp)]" by (simp add: content_only_def)
    have st: "s' = s1 \<Longrightarrow> ?thesis" using one c1 by blast
    show ?thesis
    proof (cases rp)
      case NoReply
      with "1.prems" True sd have "s' = s1" by auto
      then show ?thesis by (rule st)
    next
      case (Response status body)
      show ?thesis
      proof (cases "raise_for_status status")
        case (Inl e)
        with "1.prems" True sd Response have "s' = s1" by auto
        then show ?thesis by (rule st)
      next
        case (Inr u)
        with "1.prems" True sd Response
        have rec: "append_batches srv page_id new_blocks (i + 100) s1 = (r, s')" by auto
        from content_ext[OF one c1 "1.IH"[OF True sd[symmetric] Response Inr rec]]
        show ?thesis .
      qed
    qed
  qed
qed

lemma update_notion_page_content:
  assumes "update_notion_page srv page_id new_blocks s = (r, s')"
  shows "\<exists>tr. snd s' = snd s @ tr \<and> content_only tr"
proof -
  obtain r1 s1 where d: "delete_all_blocks srv page_id s = (r1, s1)" by (metis surj_pair)
  from delete_all_blocks_content[OF d] obtain tr1 where
    t1: "snd s1 = snd s @ tr1" "content_only tr1" by blast
  show ?thesis
  proof (cases r1)
    case (Inl e)
    with assms d have "s' = s1" by (auto simp: update_notion_page_def)
    then show ?thesis using t1 by blast
  next
    case (Inr u)
    with assms d have "append_batches srv page_id new_blocks 0 s1 = (r, s')"
      by (auto simp: update_notion_page_def)
    from content_ext[OF t1 append_batches_content[OF this]] show ?thesis .
  qed
qed

lemma check_pr_exists_shape:
  assumes "check_pr_exists_in_database srv database_id url s = (r, s')"
  shows "\<exists>answer. snd s' = snd s @ [(QueryDatabase database_id (exists_payload url), answer)]
      \<and> (r = Inr False) = no_rows answer"
proof -
  obtain rp s1 where sd: "send srv (QueryDatabase database_id (exists_payload url)) s = (rp, s1)"
    by (metis surj_pair)
  have one: "snd s1 = snd s @ [(QueryDatabase database_id (exists_payload url), rp)]"
    by (rule send_ext[OF sd])
  have r: "r = fst (check_pr_exists_in_database srv database_id url s)"
    and s': "s' = snd (check_pr_exists_in_database srv database_id url s)"
    using assms by simp_all
  have "s' = s1" unfolding s' check_pr_exists_in_database_def sd
    by (simp split: reply.splits sum.splits option.splits)
  moreover have "(r = Inr False) = no_rows rp"
    unfolding r check_pr_exists_in_database_def sd no_rows_def
    by (cases rp) (auto split: sum.splits option.splits)
  ultimately show ?thesis using one by blast
qed

lemma add_pr_shape:
  assumes "add_pr_to_database srv database_id pr prefix s = (r, s')"
  shows "\<exists>created. snd s' = snd s @ [(CreatePage (row_payload database_id pr prefix), created)]"
proof -
  obtain rp s1 where sd: "send srv (CreatePage (row_payload database_id pr prefix)) s = (rp, s1)"
    by (metis surj_pair)
  have one: "snd s1 = snd s @ [(CreatePage (row_payload database_id pr prefix), rp)]"
    by (rule send_ext[OF sd])
  from assms one show ?thesis unfolding add_pr_to_database_def sd
    by (auto split: reply.splits sum.splits option.splits)
qed

lemma track_pr_shape:
  assumes "track_pr srv pr_database_id pr prefix s = (r, s')"
  shows "\<exists>track. snd s' = snd s @ track
      \<and> (track = [] \<or>
           (\<exists>database_id. pr_database_id = Some database_id
              \<and> tracked (QueryDatabase database_id (exists_payload (pr_url pr)))
                   (CreatePage (row_payload database_id pr prefix)) track))"
proof (cases "pr_database_id \<noteq> None \<and> pr_database_id \<noteq> Some []")
  case False
  with assms have "s' = s" by (auto simp: track_pr_def)
  then show ?thesis by (intro exI[of _ "[]"]) simp
next
  case True
  then obtain database_id where db: "pr_database_id = Some database_id" by auto
  obtain r1 s1 where c: "check_pr_exists_in_database srv database_id (pr_url pr) s = (r1, s1)"
    by (metis surj_pair)
  from check_pr_exists_shape[OF c] obtain answer where
    a: "snd s1 = snd s @ [(QueryDatabase database_id (exists_payload (pr_url pr)), answer)]"
      "(r1 = Inr False) = no_rows answer" by blast
  have only_query: "s' = s1 \<Longrightarrow> r1 \<noteq> Inr False \<Longrightarrow> ?thesis"
    using a db
    by (intro exI[of _ "[(QueryDatabase database_id (exists_payload (pr_url pr)), answer)]"]) simp
  show ?thesis
  proof (cases r1)
    case (Inl e)
    with assms True db c have "s' = s1" by (auto simp: track_pr_def)
    then show ?thesis using Inl by (intro only_query) simp_all
  next
    case (Inr found)
    show ?thesis
    proof (cases found)
      case True
      with assms \<open>pr_database_id \<noteq> None \<and> pr_database_id \<noteq> Some []\<close> db c Inr
      have "s' = s1" by (auto simp: track_pr_def)
      then show ?thesis using Inr True by (intro only_query) simp_all
    next
      case False
      obtain r2 s2 where ad: "add_pr_to_database srv database_id pr prefix s1 = (r2, s2)"
        by (metis surj_pair)
      with assms \<open>pr_database_id \<noteq> None \<and> pr_database_id \<noteq> Some []\<close> db c Inr False
      have "s' = s2" by (auto simp: track_pr_def split: sum.splits)
      from add_pr_shape[OF ad] obtain created where
        cr: "snd s2 = snd s1 @ [(CreatePage (row_payload database_id pr prefix), created)]" by blast
      from a(2) Inr False have nr: "no_rows answer" by simp
      show ?thesis using a(1) cr nr db \<open>s' = s2\<close>
        by (intro exI[of _ "[(QueryDatabase database_id (exists_payload (pr_url pr)), answer),
               (CreatePage (row_payload database_id pr prefix), created)]"])
           simp
    qed
  qed
qed

text \<open>
  Claim C8. In every run that returns, the exchanges the run adds to the log are
  exchanges with the page (listings, deletes, appends) followed by the tracking step.
  The tracking step is empty (no tracking database is configured, or the run ended before
  it), or a tracking database is configured and the step is one of two things. Either it
  is the existence query alone, and the answer was not a successful one with no row. Or it
  is the existence query, answered successfully with no row, followed by one insertion of
  the pull request's row. The existence query is a query of the tracking database whose
  body is \<open>{"filter": {"property": "Link", "url": {"equals": u}}, "page_size": 1}\<close> with
  \<open>u\<close> the pull request's URL: an exact-match filter on the URL, with page size 1. So an
  insertion is always directly preceded by that check having found nothing, it is skipped
  when the check finds a row, and a run inserts at most once.
\<close>

theorem main_checks_before_insert:
  assumes "main ul ud srv llm pr_database_id page_mapping pr s = Some (r, s')"
  shows "\<exists>before track.
       snd s' = snd s @ before @ track
     \<and> list_all (\<lambda>x. \<not> is_tracker_request (fst x)) before
     \<and> (track = [] \<or>
          (\<exists>database_id. pr_database_id = Some database_id
             \<and> tracked
                  (QueryDatabase database_id
                     (JObj [(ascii ''filter'',
                               JObj [(ascii ''property'', JStr (ascii ''Link'')),
                                     (ascii ''url'', JObj [(ascii ''equals'', JStr (pr_url pr))])]),
                            (ascii ''page_size'', JNum 1)]))
                  (CreatePage (row_payload database_id pr
                     (extract_prefix_from_branch ul (pr_branch pr))))
                  track))
     \<and> length (filter (\<lambda>x. is_create (fst x)) (before @ track)) \<le> 1"
proof -
  have one: "length (filter (\<lambda>x. is_create (fst x)) track) \<le> 1"
    if "tracked (QueryDatabase database_id payload) insertion track"
    for database_id payload insertion track
    using that
    by (induction "QueryDatabase database_id payload" insertion track rule: tracked.induct) auto
  have cnt: "length (filter (\<lambda>x. is_create (fst x)) (before @ track)) \<le> 1"
    if "content_only before"
       "track = [] \<or> (\<exists>database_id. pr_database_id = Some database_id
            \<and> tracked (QueryDatabase database_id (exists_payload (pr_url pr)))
                 (CreatePage (row_payload database_id pr prefix)) track)"
    for before track prefix
  proof -
    have "filter (\<lambda>x. is_create (fst x)) before = []"
      using that(1) unfolding content_only_def list_all_iff filter_empty_conv
      by (metis is_create.elims(2) is_tracker_request.simps(1))
    moreover have "length (filter (\<lambda>x. is_create (fst x)) track) \<le> 1"
      using that(2) one by auto
    ultimately show ?thesis by simp
  qed
  have fin: ?thesis if "snd s' = snd s @ before" "content_only before" for before
    using that cnt[OF that(2), of "[]"]
    by (intro exI[of _ before] exI[of _ "[]"]) (simp add: content_only_def)
  let ?prefix = "extract_prefix_from_branch ul (pr_branch pr)"
  show ?thesis
  proof (cases "get_page_id_for_prefix ?prefix page_mapping")
    case (Inl e)
    with assms have "s' = s" by (simp add: main_def)
    then show ?thesis by (intro fin[of "[]"]) (simp_all add: content_only_def)
  next
    case mapped: (Inr mapped_id)
    show ?thesis
    proof (cases "format_page_id ul mapped_id")
      case (Inl e)
      with assms mapped have "s' = s" by (simp add: main_def)
      then show ?thesis by (intro fin[of "[]"]) (simp_all add: content_only_def)
    next
      case pid: (Inr page_id)
      from assms mapped pid obtain rc s1 where
        g: "get_notion_page_content srv page_id s = Some (rc, s1)"
        by (auto simp: main_def split: option.splits)
      from get_notion_page_content_content[OF g] obtain tr1 where
        t1: "snd s1 = snd s @ tr1" "content_only tr1" by blast
      show ?thesis
      proof (cases rc)
        case (Inl e)
        with assms mapped pid g have "s' = s1" by (simp add: main_def)
        then show ?thesis using t1 by (intro fin[of tr1]) simp_all
      next
        case existing: (Inr existing_content)
        show ?thesis
        proof (cases "synthesize_with_openai llm existing_content pr")
          case (Inl e)
          with assms mapped pid g existing have "s' = s1" by (simp add: main_def)
          then show ?thesis using t1 by (intro fin[of tr1]) simp_all
        next
          case syn: (Inr synthesized_content)
          obtain ru s2 where u: "update_notion_page srv page_id
              (markdown_to_notion_blocks ud synthesized_content) s1 = (ru, s2)" by (metis surj_pair)
          from update_notion_page_content[OF u] obtain tr2 where
            t2: "snd s2 = snd s1 @ tr2" "content_only tr2" by blast
          have t12: "snd s2 = snd s @ (tr1 @ tr2)" "content_only (tr1 @ tr2)"
            using t1 t2 by (simp_all add: content_only_def)
          show ?thesis
          proof (cases ru)
            case (Inl e)
            with assms mapped pid g existing syn u have "s' = s2" by (simp add: main_def)
            then show ?thesis using t12 by (intro fin[of "tr1 @ tr2"]) simp_all
          next
            case (Inr ok)
            with assms mapped pid g existing syn u
            have tp: "track_pr srv pr_database_id pr ?prefix s2 = (r, s')"
              by (simp add: main_def)
            from track_pr_shape[OF tp] obtain track where
              tk: "snd s' = snd s2 @ track"
                "track = [] \<or> (\<exists>database_id. pr_database_id = Some database_id
                   \<and> tracked (QueryDatabase database_id (exists_payload (pr_url pr)))
                        (CreatePage (row_payload database_id pr ?prefix)) track)" by blast
            have explicit: "track = [] \<or> (\<exists>database_id. pr_database_id = Some database_id
                   \<and> tracked
                        (QueryDatabase database_id
                           (JObj [(ascii ''filter'',
                                     JObj [(ascii ''property'', JStr (ascii ''Link'')),
                                           (ascii ''url'', JObj [(ascii ''equals'', JStr (pr_url pr))])]),
                                  (ascii ''page_size'', JNum 1)]))
                        (CreatePage (row_payload database_id pr ?prefix)) track)"
              using tk(2) unfolding exists_payload_def .
            show ?thesis
              using t12 tk(1) explicit cnt[OF t12(2) tk(2)]
              by (intro exI[of _ "tr1 @ tr2"] exI[of _ track]) (simp add: content_only_def)
          qed
        qed
      qed
    qed
  qed
qed

text \<open>The steps of the example runs.\<close>

lemma example_route:
  "extract_prefix_from_branch unicode_lower (pr_branch example_pr) = Some (ascii ''feat'')"
  "get_page_id_for_prefix (Some (ascii ''feat'')) example_mapping
     = Inr (ascii ''0123456789abcdef0123456789abcdef'')"
  "format_page_id unicode_lower (ascii ''0123456789abcdef0123456789abcdef'') = Inr example_page_id"
  by (simp_all add: extract_prefix_from_branch_def match_prefix_eq example_pr_def
        get_page_id_for_prefix_def example_mapping_def example_page_id_def
        format_page_id_def clean_id_def slice_def
        word_char_def startswith_def lower_def lower_ascii_def ascii_def)

lemma example_read:
  "get_notion_page_content scripted example_page_id (example_page # rest, [])
     = Some (Inr (ascii ''# Login''),
         (rest, [(GetChildren example_page_id [(ascii ''page_size'', JNum 100)], example_page)]))"
  unfolding get_notion_page_content_def
  apply (subst fetch_blocks.simps)
  apply (simp only: send_scripted)
  apply (simp add: example_page_def page_reply_def raise_for_status_def dict_get_def
      dict_get_value_def iterate_def stored_block_def content_line_def ascii_def)
  done

lemma example_synthesis:
  "synthesize_with_openai example_llm existing_content example_pr = Inr (ascii ''# Login'')"
  "markdown_to_notion_blocks no_digits (ascii ''# Login'')
     = [text_block (ascii ''heading_1'') (ascii ''Login'')]"
  by (simp_all add: synthesize_with_openai_def example_llm_def markdown_to_notion_blocks_def
        split_nl_def rstrip_def isspace_def startswith_def ascii_def)

lemma example_update:
  "update_notion_page scripted page_id [b]
       (one_block_listing # Response 200 None # Response 200 None # rest, lg)
     = (Inr (), (rest, lg @ [(GetChildren page_id [], one_block_listing),
            (DeleteBlock (JStr (ascii ''b1'')), Response 200 None),
            (PatchChildren page_id [b], Response 200 None)]))"
  "update_notion_page scripted page_id [b] (Response 500 None # rest, lg)
     = (Inl (HTTPError 500), (rest, lg @ [(GetChildren page_id [], Response 500 None)]))"
  by (simp_all add: update_notion_page_def delete_all_blocks_def send_scripted
        one_block_listing_def raise_for_status_def dict_get_def iterate_def subscript_def
        ascii_def slice_def)

lemma example_track:
  "track_pr scripted (Some (ascii ''db'')) example_pr prefix ([found_none, row_created], lg)
     = (Inr (), ([], lg @ [(QueryDatabase (ascii ''db'') (exists_payload example_url), found_none),
            (CreatePage (row_payload (ascii ''db'') example_pr prefix), row_created)]))"
  "track_pr scripted (Some (ascii ''db'')) example_pr prefix ([found_one], lg)
     = (Inr (), ([], lg @ [(QueryDatabase (ascii ''db'') (exists_payload example_url), found_one)]))"
  by (simp_all add: track_pr_def check_pr_exists_in_database_def add_pr_to_database_def
        send_scripted found_none_def found_one_def row_created_def raise_for_status_def
        dict_get_def py_len_def subscript_def example_pr_def ascii_def)

lemma example_runs:
  "main unicode_lower no_digits scripted example_llm (Some (ascii ''db'')) example_mapping example_pr
      ([example_page, one_block_listing, Response 200 None, Response 200 None, found_none,
        row_created], [])
   = Some (Inr (), ([], page_exchanges
        @ [(QueryDatabase (ascii ''db'') (exists_payload example_url), found_none),
           (CreatePage (row_payload (ascii ''db'') example_pr (Some (ascii ''feat''))), row_created)]))"
  "main unicode_lower no_digits scripted example_llm (Some (ascii ''db'')) example_mapping example_pr
      ([example_page, one_block_listing, Response 200 None, Response 200 None, found_one], [])
   = Some (Inr (), ([], page_exchanges
        @ [(QueryDatabase (ascii ''db'') (exists_payload example_url), found_one)]))"
  "main unicode_lower no_digits scripted example_llm (Some (ascii ''db'')) example_mapping example_pr
      ([example_page, Response 500 None], [])
   = Some (Inl (HTTPError 500), ([],
        [(GetChildren example_page_id [(ascii ''page_size'', JNum 100)], example_page),
         (GetChildren example_page_id [], Response 500 None)]))"
  unfolding main_def Let_def example_route
  by (simp_all add: example_route example_read example_synthesis example_update example_track
        page_exchanges_def del: append_batches.simps)

text \<open>
  Two runs for the pull request of \<open>feat/login\<close>, whose URL is \<open>example_url\<close>. In the
  first the existence check, with the filter on that URL and page size 1, finds no row
  and the row is inserted, once, after the check. In the second the check finds a row and
  nothing is inserted.
\<close>

theorem main_checks_before_insert_witness:
  "main unicode_lower no_digits scripted example_llm (Some (ascii ''db'')) example_mapping example_pr
      ([example_page, one_block_listing, Response 200 None, Response 200 None, found_none,
        row_created], [])
   = Some (Inr (), ([], page_exchanges
        @ [(QueryDatabase (ascii ''db'')
              (JObj [(ascii ''filter'',
                        JObj [(ascii ''property'', JStr (ascii ''Link'')),
                              (ascii ''url'', JObj [(ascii ''equals'', JStr example_url)])]),
                     (ascii ''page_size'', JNum 1)]), found_none),
           (CreatePage (row_payload (ascii ''db'') example_pr (Some (ascii ''feat''))), row_created)]))
   \<and> (\<exists>before track.
         page_exchanges
           @ [(QueryDatabase (ascii ''db'')
                 (JObj [(ascii ''filter'',
                           JObj [(ascii ''property'', JStr (ascii ''Link'')),
                                 (ascii ''url'', JObj [(ascii ''equals'', JStr example_url)])]),
                        (ascii ''page_size'', JNum 1)]), found_none),
              (CreatePage (row_payload (ascii ''db'') example_pr (Some (ascii ''feat''))), row_created)]
         = before @ track
       \<and> list_all (\<lambda>x. \<not> is_tracker_request (fst x)) before
       \<and> (track = [] \<or>
            tracked
              (QueryDatabase (ascii ''db'')
                 (JObj [(ascii ''filter'',
                           JObj [(ascii ''property'', JStr (ascii ''Link'')),
                                 (ascii ''url'', JObj [(ascii ''equals'', JStr example_url)])]),
                        (ascii ''page_size'', JNum 1)]))
              (CreatePage (row_payload (ascii ''db'') example_pr (Some (ascii ''feat''))))
              track)
       \<and> length (filter (\<lambda>x. is_create (fst x)) (before @ track)) \<le> 1)
   \<and> no_rows found_none
   \<and> main unicode_lower no_digits scripted example_llm (Some (ascii ''db'')) example_mapping example_pr
      ([example_page, one_block_listing, Response 200 None, Response 200 None, found_one], [])
   = Some (Inr (), ([], page_exchanges
        @ [(QueryDatabase (ascii ''db'')
              (JObj [(ascii ''filter'',
                        JObj [(ascii ''property'', JStr (ascii ''Link'')),
                              (ascii ''url'', JObj [(ascii ''equals'', JStr example_url)])]),
                     (ascii ''page_size'', JNum 1)]), found_one)]))
   \<and> \<not> no_rows found_one"
proof -
  note runs = example_runs[unfolded exists_payload_def]
  have url: "pr_url example_pr = example_url" by (simp add: example_pr_def)
  have answers: "no_rows found_none" "\<not> no_rows found_one"
    by (simp_all add: no_rows_def found_none_def found_one_def raise_for_status_def
          dict_get_def py_len_def ascii_def)
  from main_checks_before_insert[OF runs(1)] have "\<exists>before track.
         page_exchanges
           @ [(QueryDatabase (ascii ''db'')
                 (JObj [(ascii ''filter'',
                           JObj [(ascii ''property'', JStr (ascii ''Link'')),
                                 (ascii ''url'', JObj [(ascii ''equals'', JStr example_url)])]),
                        (ascii ''page_size'', JNum 1)]), found_none),
              (CreatePage (row_payload (ascii ''db'') example_pr (Some (ascii ''feat''))), row_created)]
         = before @ track
       \<and> list_all (\<lambda>x. \<not> is_tracker_request (fst x)) before
       \<and> (track = [] \<or>
            tracked
              (QueryDatabase (ascii ''db'')
                 (JObj [(ascii ''filter'',
                           JObj [(ascii ''property'', JStr (ascii ''Link'')),
                                 (ascii ''url'', JObj [(ascii ''equals'', JStr example_url)])]),
                        (ascii ''page_size'', JNum 1)]))
              (CreatePage (row_payload (ascii ''db'') example_pr (Some (ascii ''feat''))))
              track)
       \<and> length (filter (\<lambda>x. is_create (fst x)) (before @ track)) \<le> 1"
    by (simp only: snd_conv append_Nil url example_route(1) option.inject simp_thms ex_simps
          HOL.simp_thms(39))
  with runs(1,2) answers show ?thesis by (simp only: simp_thms)
qed

subsection \<open>Markdown-to-block converter\<close>



lemma isdecimal_dot: "\<not> isdecimal ud 46"
  by (simp add: isdecimal_def)

lemma match_numbered_eq:
  "match_numbered ud line =
     (case numeric_marker isspace ud line of
        Some remainder \<Rightarrow> Some (length (takeWhile (isdecimal ud) line) + 2)
      | None \<Rightarrow> None)"
proof -
  define n where "n = length (takeWhile (isdecimal ud) line)"
  let ?P = "\<lambda>k. Suc k < length line \<and> line ! k = 46 \<and> isspace (line ! Suc k)"
  have inner: "\<And>k. k < n \<Longrightarrow> \<not> ?P k"
  proof -
    fix k assume "k < n"
    then have "isdecimal ud (line ! k)"
      unfolding n_def by (metis takeWhile_nth nth_mem set_takeWhileD)
    then show "\<not> ?P k" using isdecimal_dot by auto
  qed
  have f0: "filter ?P (rev [1..<n]) = []"
    using inner by (auto simp: filter_empty_conv)
  define rest where "rest = dropWhile (isdecimal ud) line"
  have split: "line = takeWhile (isdecimal ud) line @ rest" by (simp add: rest_def)
  have nth: "line ! (n + j) = rest ! j" for j
    unfolding n_def by (metis split nth_append_length_plus)
  have len: "length line = n + length rest"
    unfolding n_def by (metis split length_append)
  have ne: "takeWhile (isdecimal ud) line \<noteq> [] \<longleftrightarrow> n \<noteq> 0" by (simp add: n_def)
  have nmd: "numeric_marker isspace ud line =
     (case rest of
        dot # after # remainder \<Rightarrow> if n \<noteq> 0 \<and> dot = 46 \<and> isspace after then Some remainder else None
      | _ \<Rightarrow> None)"
    unfolding numeric_marker_def rest_def[symmetric] ne ..
  have nm: "numeric_marker isspace ud line = (if n \<noteq> 0 \<and> ?P n then Some (drop 2 rest) else None)"
  proof (cases rest)
    case Nil
    then show ?thesis using len by (simp add: nmd)
  next
    case c1: (Cons dot r1)
    show ?thesis
    proof (cases r1)
      case Nil
      then show ?thesis using len c1 by (simp add: nmd)
    next
      case (Cons after remainder)
      then show ?thesis using len c1 nth[of 0] nth[of 1]
        by (auto simp: nmd)
    qed
  qed
  have mp: "match_numbered ud line =
      (case filter ?P (rev [1..<Suc n]) of [] \<Rightarrow> None | k # _ \<Rightarrow> Some (k + 2))"
    unfolding match_numbered_def n_def Let_def ..
  show ?thesis
  proof (cases "n = 0")
    case True
    then show ?thesis unfolding mp nm by simp
  next
    case False
    then have r: "rev [1..<Suc n] = n # rev [1..<n]" by simp
    show ?thesis unfolding mp r nm using f0 False n_def by simp
  qed
qed

lemma numeric_marker_drop:
  "numeric_marker sep ud line = Some remainder \<Longrightarrow>
   drop (length (takeWhile (isdecimal ud) line) + 2) line = remainder"
proof -
  assume a: "numeric_marker sep ud line = Some remainder"
  then obtain dot after where d: "dropWhile (isdecimal ud) line = dot # after # remainder"
    by (auto simp: numeric_marker_def split: list.splits if_splits)
  have "drop (length (takeWhile (isdecimal ud) line)) line = dropWhile (isdecimal ud) line"
    by (metis takeWhile_dropWhile_id append_eq_conv_conj)
  then show ?thesis using d by (metis add.commute drop_drop drop_Suc_Cons drop0 numeral_2_eq_2)
qed



lemma convert_lines_step:
  "convert_lines ud (l # lines) blocks = convert_lines ud lines (blocks @ convert_lines ud [l] [])"
  by (simp add: Let_def split: option.splits)

lemma convert_lines_concat:
  "convert_lines ud lines blocks = blocks @ concat (map (\<lambda>l. convert_lines ud [l] []) lines)"
proof (induction lines arbitrary: blocks)
  case Nil
  show ?case by simp
next
  case (Cons l lines)
  show ?case by (subst convert_lines_step) (simp add: Cons.IH del: convert_lines.simps)
qed







text \<open>
  Claim C4 says that a bulleted item written by the converter, rendered by the reader and
  converted again, keeps its type and its text. The type is kept, the text is not: the
  reader writes the bullet, which is three code points long, and a space before the text,
  and the converter cuts two characters off a bulleted line, whichever marker it starts
  with. The item \<open>item\<close> comes back with the bullet's last code point and the space in
  front of its text. A heading and a paragraph come back unchanged.
\<close>

theorem bulleted_item_round_trip_changes_text:
  "markdown_to_notion_blocks no_digits (ascii ''- item'')
     = [text_block (ascii ''bulleted_list_item'') (ascii ''item'')]
   \<and> render_blocks [stored_block (ascii ''bulleted_list_item'') (ascii ''item'')] []
     = Inr [bullet @ [32] @ ascii ''item'']
   \<and> markdown_to_notion_blocks no_digits (join_nl [bullet @ [32] @ ascii ''item''])
     = [text_block (ascii ''bulleted_list_item'') ([162, 32] @ ascii ''item'')]
   \<and> render_blocks [stored_block (ascii ''heading_1'') (ascii ''Title''),
                     stored_block (ascii ''paragraph'') (ascii ''text'')] []
     = Inr [ascii ''# Title'', ascii ''text'']
   \<and> markdown_to_notion_blocks no_digits (join_nl [ascii ''# Title'', ascii ''text''])
     = [text_block (ascii ''heading_1'') (ascii ''Title''),
        text_block (ascii ''paragraph'') (ascii ''text'')]"
  by (simp add: markdown_to_notion_blocks_def split_nl_def match_numbered_eq Let_def
        numeric_marker_def isdecimal_def rstrip_def isspace_def startswith_def bullet_def
        stored_block_def dict_get_def dict_get_value_def iterate_def content_line_def ascii_def)

subsection \<open>Round trip through the reader\<close>

lemma rstrip_fixed: "x = [] \<or> \<not> isspace (last x) \<Longrightarrow> rstrip x = x"
  by (cases x rule: rev_cases) (auto simp: rstrip_def)

lemma rstrip_last: "rstrip l \<noteq> [] \<Longrightarrow> \<not> isspace (last (rstrip l))"
proof -
  assume a: "rstrip l \<noteq> []"
  then have "dropWhile isspace (rev l) \<noteq> []" by (simp add: rstrip_def)
  then have "\<not> isspace (hd (dropWhile isspace (rev l)))" by (rule hd_dropWhile)
  then show ?thesis using a by (simp add: rstrip_def last_rev)
qed

lemma rstrip_set: "set (rstrip l) \<subseteq> set l"
  by (auto simp: rstrip_def dest: set_dropWhileD)

lemma split_from_no_nl:
  "10 \<notin> set cur \<Longrightarrow> l \<in> set (split_from cur s) \<Longrightarrow> 10 \<notin> set l"
  by (induction cur s rule: split_from.induct) (auto split: if_splits)

lemma split_nl_no_nl: "l \<in> set (split_nl s) \<Longrightarrow> 10 \<notin> set l"
  unfolding split_nl_def by (rule split_from_no_nl[of "[]"]) simp_all

lemma split_from_append:
  "10 \<notin> set p \<Longrightarrow> split_from cur (p @ rest) = split_from (cur @ p) rest"
  by (induction p arbitrary: cur) auto

lemma split_from_join:
  "ls \<noteq> [] \<Longrightarrow> (\<forall>l \<in> set ls. 10 \<notin> set l) \<Longrightarrow>
   split_from cur (join_nl ls) = (cur @ hd ls) # tl ls"
proof (induction ls arbitrary: cur rule: join_nl.induct)
  case 1
  then show ?case by simp
next
  case (2 p)
  then show ?case using split_from_append[of p cur "[]"] by simp
next
  case (3 p q ps)
  have "split_from cur (p @ 10 # join_nl (q # ps)) = split_from (cur @ p) (10 # join_nl (q # ps))"
    using "3.prems" by (intro split_from_append) simp
  also have "\<dots> = (cur @ p) # split_from [] (join_nl (q # ps))" by simp
  also have "split_from [] (join_nl (q # ps)) = q # ps"
    using "3.IH"[of "[]"] "3.prems" by simp
  finally show ?case by simp
qed

lemma split_join:
  "ls \<noteq> [] \<Longrightarrow> (\<forall>l \<in> set ls. 10 \<notin> set l) \<Longrightarrow> split_nl (join_nl ls) = ls"
  unfolding split_nl_def using split_from_join[of ls "[]"] by (cases ls) auto

lemma convert_lines_item:
  "convert_lines ud [l] [] =
     (case line_item ud l of None \<Rightarrow> [] | Some item \<Rightarrow> [text_block (fst item) (snd item)])"
  by (simp add: line_item_def Let_def split: option.splits)

lemma blocks_items:
  "markdown_to_notion_blocks ud md =
     map (\<lambda>item. text_block (fst item) (snd item)) (List.map_filter (line_item ud) (split_nl md))"
proof -
  have "concat (map (\<lambda>l. convert_lines ud [l] []) ls)
      = map (\<lambda>item. text_block (fst item) (snd item)) (List.map_filter (line_item ud) ls)" for ls
    by (induction ls) (simp_all add: convert_lines_item List.map_filter_simps split: option.splits
        del: convert_lines.simps)
  then show ?thesis
    unfolding markdown_to_notion_blocks_def by (subst convert_lines_concat) simp
qed

lemma startswith_split: "startswith line p \<Longrightarrow> length p = n \<Longrightarrow> line = p @ drop n line"
  unfolding startswith_def by (metis append_take_drop_id)

lemma tail_text:
  assumes "line = p @ c" "line \<noteq> []" "\<not> isspace (last line)" "10 \<notin> set line"
    and "p \<noteq> []" "isspace (last p)"
  shows "c \<noteq> [] \<and> \<not> isspace (last c) \<and> 10 \<notin> set c"
proof -
  have "c \<noteq> []" using assms by auto
  then show ?thesis using assms by auto
qed

lemma numeric_marker_split:
  assumes "numeric_marker sep ud line = Some remainder"
  shows "\<exists>after. line = (takeWhile (isdecimal ud) line @ [46, after]) @ remainder \<and> sep after"
proof -
  from assms obtain after where d: "dropWhile (isdecimal ud) line = 46 # after # remainder" "sep after"
    by (auto simp: numeric_marker_def split: list.splits if_splits)
  have "line = takeWhile (isdecimal ud) line @ dropWhile (isdecimal ud) line" by simp
  then show ?thesis using d by (metis append.assoc append_Cons append_Nil)
qed

text \<open>What the converter's items look like.\<close>

lemma line_item_cases:
  assumes li: "line_item ud l = Some (ty, c)"
  obtains
    (h1) "ty = ascii ''heading_1''" "rstrip l = ascii ''# '' @ c"
  | (h2) "ty = ascii ''heading_2''" "rstrip l = ascii ''## '' @ c"
  | (h3) "ty = ascii ''heading_3''" "rstrip l = ascii ''### '' @ c"
  | (dash) "ty = ascii ''bulleted_list_item''" "rstrip l = ascii ''- '' @ c"
  | (bul) "ty = ascii ''bulleted_list_item''" "\<exists>t. c = [162, 32] @ t \<and> rstrip l = bullet @ [32] @ t"
  | (num) "ty = ascii ''numbered_list_item''"
          "\<exists>ds after. rstrip l = (ds @ [46, after]) @ c \<and> isspace after"
  | (par) "ty = ascii ''paragraph''" "c = rstrip l" "line_item ud (rstrip l) = Some (ty, c)"
proof -
  let ?line = "rstrip l"
  have ne: "?line \<noteq> []" using li by (auto simp: line_item_def Let_def split: if_splits)
  consider (a) "startswith ?line (ascii ''# '')"
    | (b) "\<not> startswith ?line (ascii ''# '')" "startswith ?line (ascii ''## '')"
    | (c) "\<not> startswith ?line (ascii ''# '')" "\<not> startswith ?line (ascii ''## '')"
          "startswith ?line (ascii ''### '')"
    | (d) "\<not> startswith ?line (ascii ''# '')" "\<not> startswith ?line (ascii ''## '')"
          "\<not> startswith ?line (ascii ''### '')" "startswith ?line (ascii ''- '')"
    | (e) "\<not> startswith ?line (ascii ''# '')" "\<not> startswith ?line (ascii ''## '')"
          "\<not> startswith ?line (ascii ''### '')" "\<not> startswith ?line (ascii ''- '')"
          "startswith ?line (bullet @ [32])"
    | (f) "\<not> startswith ?line (ascii ''# '')" "\<not> startswith ?line (ascii ''## '')"
          "\<not> startswith ?line (ascii ''### '')" "\<not> startswith ?line (ascii ''- '')"
          "\<not> startswith ?line (bullet @ [32])"
    by blast
  then show thesis
  proof cases
    case a
    with li ne have "ty = ascii ''heading_1''" "c = drop 2 ?line"
      by (auto simp: line_item_def Let_def)
    moreover have "?line = ascii ''# '' @ drop 2 ?line"
      by (rule startswith_split[OF a]) (simp add: ascii_def)
    ultimately show ?thesis by (intro h1) (simp_all only:)
  next
    case b
    with li ne have "ty = ascii ''heading_2''" "c = drop 3 ?line"
      by (auto simp: line_item_def Let_def)
    moreover have "?line = ascii ''## '' @ drop 3 ?line"
      by (rule startswith_split[OF b(2)]) (simp add: ascii_def)
    ultimately show ?thesis by (intro h2) (simp_all only:)
  next
    case c
    with li ne have "ty = ascii ''heading_3''" "c = drop 4 ?line"
      by (auto simp: line_item_def Let_def)
    moreover have "?line = ascii ''### '' @ drop 4 ?line"
      by (rule startswith_split[OF c(3)]) (simp add: ascii_def)
    ultimately show ?thesis by (intro h3) (simp_all only:)
  next
    case d
    with li ne have "ty = ascii ''bulleted_list_item''" "c = drop 2 ?line"
      by (auto simp: line_item_def Let_def)
    moreover have "?line = ascii ''- '' @ drop 2 ?line"
      by (rule startswith_split[OF d(4)]) (simp add: ascii_def)
    ultimately show ?thesis by (intro dash) (simp_all only:)
  next
    case e
    with li ne have t: "ty = ascii ''bulleted_list_item''" "c = drop 2 ?line"
      by (auto simp: line_item_def Let_def)
    have "?line = (bullet @ [32]) @ drop 4 ?line"
      by (rule startswith_split[OF e(5)]) (simp add: bullet_def)
    then have q: "?line = 8218 # 196 # 162 # 32 # drop 4 ?line" by (simp add: bullet_def)
    have "drop 2 ?line = [162, 32] @ drop 4 ?line"
      by (subst q) (simp add: numeral_2_eq_2)
    with q t(2) have "c = [162, 32] @ drop 4 ?line \<and> ?line = bullet @ [32] @ drop 4 ?line"
      by (simp add: bullet_def)
    with t(1) show ?thesis by (intro bul) blast+
  next
    case f
    show ?thesis
    proof (cases "numeric_marker isspace ud ?line")
      case None
      with li ne f have t: "ty = ascii ''paragraph''" "c = ?line"
        by (auto simp: line_item_def Let_def match_numbered_eq)
      have "rstrip ?line = ?line" using rstrip_last[OF ne] by (intro rstrip_fixed) simp
      then have "line_item ud ?line = line_item ud l" by (simp add: line_item_def)
      with t li show ?thesis by (intro par) simp_all
    next
      case (Some remainder)
      with li ne f have t: "ty = ascii ''numbered_list_item''"
        "c = drop (length (takeWhile (isdecimal ud) ?line) + 2) ?line"
        by (auto simp: line_item_def Let_def match_numbered_eq)
      with numeric_marker_drop[OF Some] have "c = remainder" by simp
      with numeric_marker_split[OF Some] t(1) show ?thesis by (intro num) blast+
    qed
  qed
qed

lemma line_item_text:
  assumes li: "line_item ud l = Some (ty, c)" and nl: "10 \<notin> set l"
  shows "c \<noteq> [] \<and> \<not> isspace (last c) \<and> 10 \<notin> set c"
proof -
  let ?line = "rstrip l"
  have ne: "?line \<noteq> []" using li by (auto simp: line_item_def Let_def split: if_splits)
  note ls = rstrip_last[OF ne]
  have n10: "10 \<notin> set ?line" using nl rstrip_set by blast
  from li show ?thesis
  proof (cases rule: line_item_cases)
    case h1
    show ?thesis by (rule tail_text[OF h1(2) ne ls n10]) (simp_all add: ascii_def isspace_def)
  next
    case h2
    show ?thesis by (rule tail_text[OF h2(2) ne ls n10]) (simp_all add: ascii_def isspace_def)
  next
    case h3
    show ?thesis by (rule tail_text[OF h3(2) ne ls n10]) (simp_all add: ascii_def isspace_def)
  next
    case dash
    show ?thesis by (rule tail_text[OF dash(2) ne ls n10]) (simp_all add: ascii_def isspace_def)
  next
    case bul
    then obtain t where t: "c = [162, 32] @ t" "?line = bullet @ [32] @ t" by blast
    have "?line = (bullet @ [32]) @ t" using t(2) by simp
    from tail_text[OF this ne ls n10] have "t \<noteq> [] \<and> \<not> isspace (last t) \<and> 10 \<notin> set t"
      by (simp add: isspace_def)
    then show ?thesis using t(1) by simp
  next
    case num
    then obtain ds after where d: "?line = (ds @ [46, after]) @ c" "isspace after" by blast
    show ?thesis by (rule tail_text[OF d(1) ne ls n10]) (simp_all add: d(2))
  next
    case par
    then show ?thesis using ne ls n10 by simp
  qed
qed

lemma kinds_distinct:
  "ascii ''heading_1'' \<noteq> ascii ''heading_2''" "ascii ''heading_1'' \<noteq> ascii ''heading_3''"
  "ascii ''heading_2'' \<noteq> ascii ''heading_3''"
  "ascii ''bulleted_list_item'' \<noteq> ascii ''heading_1''" "ascii ''bulleted_list_item'' \<noteq> ascii ''heading_2''"
  "ascii ''bulleted_list_item'' \<noteq> ascii ''heading_3''"
  "ascii ''numbered_list_item'' \<noteq> ascii ''heading_1''" "ascii ''numbered_list_item'' \<noteq> ascii ''heading_2''"
  "ascii ''numbered_list_item'' \<noteq> ascii ''heading_3''"
  "ascii ''numbered_list_item'' \<noteq> ascii ''bulleted_list_item''"
  "ascii ''paragraph'' \<noteq> ascii ''heading_1''" "ascii ''paragraph'' \<noteq> ascii ''heading_2''"
  "ascii ''paragraph'' \<noteq> ascii ''heading_3''" "ascii ''paragraph'' \<noteq> ascii ''bulleted_list_item''"
  "ascii ''paragraph'' \<noteq> ascii ''numbered_list_item''"
  by (simp_all add: ascii_def)

lemma line_item_marked:
  assumes "c \<noteq> []" "\<not> isspace (last c)"
  shows "line_item ud (ascii ''# '' @ c) = Some (ascii ''heading_1'', c)"
    "line_item ud (ascii ''## '' @ c) = Some (ascii ''heading_2'', c)"
    "line_item ud (ascii ''### '' @ c) = Some (ascii ''heading_3'', c)"
    "line_item ud (bullet @ [32] @ c) = Some (ascii ''bulleted_list_item'', [162, 32] @ c)"
    "line_item ud (ascii ''1. '' @ c) = Some (ascii ''numbered_list_item'', c)"
proof -
  have fx: "rstrip (p @ c) = p @ c" for p
    using assms by (intro rstrip_fixed) simp
  show "line_item ud (ascii ''# '' @ c) = Some (ascii ''heading_1'', c)"
    unfolding line_item_def fx Let_def by (simp add: startswith_def ascii_def)
  show "line_item ud (ascii ''## '' @ c) = Some (ascii ''heading_2'', c)"
    unfolding line_item_def fx Let_def by (simp add: startswith_def ascii_def)
  show "line_item ud (ascii ''### '' @ c) = Some (ascii ''heading_3'', c)"
    unfolding line_item_def fx Let_def by (simp add: startswith_def ascii_def)
  have "rstrip (bullet @ [32] @ c) = bullet @ [32] @ c" using fx[of "bullet @ [32]"] by simp
  then show "line_item ud (bullet @ [32] @ c) = Some (ascii ''bulleted_list_item'', [162, 32] @ c)"
    unfolding line_item_def Let_def by (simp add: startswith_def ascii_def bullet_def)
  have nm: "numeric_marker isspace ud (ascii ''1. '' @ c) = Some c"
    by (simp add: numeric_marker_def isdecimal_def isspace_def ascii_def)
  show "line_item ud (ascii ''1. '' @ c) = Some (ascii ''numbered_list_item'', c)"
    unfolding line_item_def fx Let_def match_numbered_eq nm
    by (simp add: startswith_def ascii_def bullet_def isdecimal_def)
qed

lemma line_item_reread:
  assumes li: "line_item ud l = Some (ty, c)" and nl: "10 \<notin> set l"
  shows "line_item ud (content_line (JStr ty) c) = Some (ty, reread_text (ty, c))"
proof -
  from line_item_text[OF li nl] have c: "c \<noteq> []" "\<not> isspace (last c)" by simp_all
  note m = line_item_marked[OF c, of ud]
  from li show ?thesis
  proof (cases rule: line_item_cases)
    case h1
    then show ?thesis using m(1) kinds_distinct kinds_distinct[symmetric]
      by (simp add: content_line_def reread_text_def)
  next
    case h2
    then show ?thesis using m(2) kinds_distinct kinds_distinct[symmetric]
      by (simp add: content_line_def reread_text_def)
  next
    case h3
    then show ?thesis using m(3) kinds_distinct kinds_distinct[symmetric]
      by (simp add: content_line_def reread_text_def)
  next
    case dash
    then show ?thesis using m(4) kinds_distinct kinds_distinct[symmetric]
      by (simp add: content_line_def reread_text_def)
  next
    case bul
    then show ?thesis using m(4) kinds_distinct kinds_distinct[symmetric]
      by (simp add: content_line_def reread_text_def)
  next
    case num
    then show ?thesis using m(5) kinds_distinct kinds_distinct[symmetric]
      by (simp add: content_line_def reread_text_def)
  next
    case par
    then show ?thesis using kinds_distinct kinds_distinct[symmetric]
      by (simp add: content_line_def reread_text_def)
  qed
qed

lemma content_line_no_nl:
  "10 \<notin> set c \<Longrightarrow> 10 \<notin> set (content_line ty c)"
  by (simp add: content_line_def ascii_def bullet_def)

lemma line_item_kind:
  assumes "line_item ud l = Some (ty, c)"
  shows "ty \<noteq> [] \<and> ty \<noteq> ascii ''object'' \<and> ty \<noteq> ascii ''type''"
  using assms by (cases rule: line_item_cases) (simp_all add: ascii_def)

lemma render_stored_block:
  assumes "ty \<noteq> [] \<and> ty \<noteq> ascii ''object'' \<and> ty \<noteq> ascii ''type''"
  shows "render_blocks (stored_block ty c # blocks) parts
           = render_blocks blocks (parts @ [content_line (JStr ty) c])"
  using assms
  by (simp add: stored_block_def dict_get_def dict_get_value_def iterate_def ascii_def)

lemma render_stored_items:
  assumes "\<forall>item \<in> set items. fst item \<noteq> [] \<and> fst item \<noteq> ascii ''object'' \<and> fst item \<noteq> ascii ''type''"
  shows "render_blocks (map (\<lambda>item. stored_block (fst item) (snd item)) items) parts
           = Inr (parts @ map (\<lambda>item. content_line (JStr (fst item)) (snd item)) items)"
  using assms
proof (induction items arbitrary: parts)
  case Nil
  show ?case by simp
next
  case (Cons item items)
  then show ?case
    by (simp add: render_stored_block del: render_blocks.simps)
qed

lemma map_filter_reread:
  assumes "\<forall>item \<in> set items. \<exists>l. line_item ud l = Some item \<and> 10 \<notin> set l"
  shows "List.map_filter (line_item ud) (map (\<lambda>item. content_line (JStr (fst item)) (snd item)) items)
           = map (\<lambda>item. (fst item, reread_text item)) items"
  using assms
proof (induction items)
  case Nil
  show ?case by (simp add: List.map_filter_simps)
next
  case (Cons item items)
  obtain ty c where i: "item = (ty, c)" by (cases item)
  from Cons.prems obtain l where l: "line_item ud l = Some (ty, c)" "10 \<notin> set l"
    unfolding i by auto
  show ?case
    using Cons.IH Cons.prems line_item_reread[OF l]
    by (simp add: i List.map_filter_simps)
qed

lemma map_filter_origin:
  "item \<in> set (List.map_filter f ls) \<Longrightarrow> \<exists>l \<in> set ls. f l = Some item"
  by (induction ls) (auto simp: List.map_filter_simps split: option.splits)

text \<open>
  The round trip of the converter's own output. The blocks the converter makes of a text
  are text blocks of some items (block type and text). Read back from the store, they
  are rendered without error to one line per item; and converting those lines, joined by
  line feeds, gives again one block per item, in the same order and of the same type,
  with the same text for headings, numbered items and paragraphs. A numbered item is
  rendered with the marker \<open>1. \<close> whatever number it had. Only a bulleted item comes back
  with another text: the last code point of the bullet and a space in front of its own.
\<close>

theorem converter_round_trip:
  "\<exists>items.
     markdown_to_notion_blocks ud md = map (\<lambda>item. text_block (fst item) (snd item)) items
   \<and> render_blocks (map (\<lambda>item. stored_block (fst item) (snd item)) items) []
       = Inr (map (\<lambda>item. content_line (JStr (fst item)) (snd item)) items)
   \<and> markdown_to_notion_blocks ud
         (join_nl (map (\<lambda>item. content_line (JStr (fst item)) (snd item)) items))
       = map (\<lambda>item. text_block (fst item) (reread_text item)) items"
proof -
  define items where "items = List.map_filter (line_item ud) (split_nl md)"
  let ?lines = "map (\<lambda>item. content_line (JStr (fst item)) (snd item)) items"
  have origin: "\<forall>item \<in> set items. \<exists>l. line_item ud l = Some item \<and> 10 \<notin> set l"
    unfolding items_def using map_filter_origin split_nl_no_nl by fast
  have kinds: "\<forall>item \<in> set items. fst item \<noteq> [] \<and> fst item \<noteq> ascii ''object'' \<and> fst item \<noteq> ascii ''type''"
  proof
    fix item assume "item \<in> set items"
    with origin obtain l where "line_item ud l = Some (fst item, snd item)" by auto
    then show "fst item \<noteq> [] \<and> fst item \<noteq> ascii ''object'' \<and> fst item \<noteq> ascii ''type''"
      by (rule line_item_kind)
  qed
  have first: "markdown_to_notion_blocks ud md = map (\<lambda>item. text_block (fst item) (snd item)) items"
    unfolding items_def by (rule blocks_items)
  have second: "render_blocks (map (\<lambda>item. stored_block (fst item) (snd item)) items) [] = Inr ?lines"
    using render_stored_items[OF kinds, of "[]"] by simp
  have nonl: "\<forall>line \<in> set ?lines. 10 \<notin> set line"
  proof
    fix line assume "line \<in> set ?lines"
    then obtain item where it: "item \<in> set items" "line = content_line (JStr (fst item)) (snd item)"
      by auto
    with origin obtain l where l: "line_item ud l = Some (fst item, snd item)" "10 \<notin> set l" by auto
    from line_item_text[OF l] have "10 \<notin> set (snd item)" by simp
    then show "10 \<notin> set line" unfolding it(2) by (rule content_line_no_nl)
  qed
  have sp: "List.map_filter (line_item ud) (split_nl (join_nl ?lines))
              = map (\<lambda>item. (fst item, reread_text item)) items"
  proof (cases "items = []")
    case True
    then show ?thesis
      by (simp add: split_nl_def List.map_filter_simps line_item_def rstrip_def)
  next
    case False
    then have "?lines \<noteq> []" by simp
    from split_join[OF this nonl] show ?thesis
      using map_filter_reread[OF origin] by simp
  qed
  have third: "markdown_to_notion_blocks ud (join_nl ?lines)
      = map (\<lambda>item. text_block (fst item) (reread_text item)) items"
    unfolding blocks_items sp by (simp add: comp_def)
  from first second third show ?thesis by blast
qed

subsection \<open>Failed calls\<close>

lemma fatal_last_nil: "fatal_last [] failed"
  by (simp add: fatal_last_def)

lemma fatal_last_stop: "failed \<or> answered x \<Longrightarrow> fatal_last [x] failed"
  by (auto simp: fatal_last_def)

lemma fatal_last_step: "answered x \<Longrightarrow> fatal_last tr failed \<Longrightarrow> fatal_last (x # tr) failed"
  by (cases tr) (auto simp: fatal_last_def)

lemma fatal_last_seq:
  "fatal_last tr1 False \<Longrightarrow> fatal_last tr2 failed \<Longrightarrow> fatal_last (tr1 @ tr2) failed"
  by (cases "tr2 = []") (auto simp: fatal_last_def butlast_append list_all_iff dest: in_set_butlastD)

lemma inl_isl: "Inl e = v \<Longrightarrow> isl v"
  by auto

lemma ext_nil: "\<exists>tr. snd s = snd s @ tr \<and> fatal_last tr failed"
  by (intro exI[of _ "[]"]) (simp add: fatal_last_nil)

lemma ext_stop:
  "snd s1 = snd s @ [x] \<Longrightarrow> failed \<or> answered x \<Longrightarrow> \<exists>tr. snd s1 = snd s @ tr \<and> fatal_last tr failed"
  by (intro exI[of _ "[x]"]) (simp add: fatal_last_stop)

lemma ext_go:
  "snd s1 = snd s @ [x] \<Longrightarrow> answered x \<Longrightarrow> \<exists>tr. snd s' = snd s1 @ tr \<and> fatal_last tr failed
   \<Longrightarrow> \<exists>tr. snd s' = snd s @ tr \<and> fatal_last tr failed"
  by (auto intro: fatal_last_step)

lemma ext_seq:
  "\<exists>tr. snd s1 = snd s @ tr \<and> fatal_last tr False \<Longrightarrow> \<exists>tr. snd s2 = snd s1 @ tr \<and> fatal_last tr failed
   \<Longrightarrow> \<exists>tr. snd s2 = snd s @ tr \<and> fatal_last tr failed"
  by (auto intro: fatal_last_seq)

lemma answered_simps:
  "answered (rq, NoReply) = False"
  "answered (DeleteBlock b, Response status body) = True"
  "answered (GetChildren p ps, Response status body) = (raise_for_status status = Inr ())"
  "answered (PatchChildren p bs, Response status body) = (raise_for_status status = Inr ())"
  "answered (QueryDatabase d q, Response status body) = (raise_for_status status = Inr ())"
  "answered (CreatePage q, Response status body) = (raise_for_status status = Inr ())"
  by (simp_all add: answered_def)

lemma delete_each_fatal:
  "delete_each srv blocks s = (r, s') \<Longrightarrow> \<exists>tr. snd s' = snd s @ tr \<and> fatal_last tr (isl r)"
proof (induction blocks arbitrary: s)
  case Nil
  then have "s' = s" by simp
  then show ?case using ext_nil[of s "isl r"] by simp
next
  case (Cons block blocks)
  show ?case
  proof (cases "subscript block (ascii ''id'')")
    case (Inl e)
    with Cons.prems have "s' = s" by auto
    then show ?thesis using ext_nil[of s "isl r"] by simp
  next
    case (Inr block_id)
    obtain rp s1 where sd: "send srv (DeleteBlock block_id) s = (rp, s1)" by (metis surj_pair)
    have one: "snd s1 = snd s @ [(DeleteBlock block_id, rp)]" by (rule send_ext[OF sd])
    show ?thesis
    proof (cases rp)
      case NoReply
      with Cons.prems Inr sd have "s' = s1" "isl r" by auto
      then show ?thesis using ext_stop[OF one] by simp
    next
      case (Response status body)
      with Cons.prems Inr sd have "delete_each srv blocks s1 = (r, s')" by auto
      from ext_go[OF one _ Cons.IH[OF this]] Response show ?thesis
        by (simp add: answered_simps)
    qed
  qed
qed

lemma delete_all_blocks_fatal:
  assumes "delete_all_blocks srv page_id s = (r, s')"
  shows "\<exists>tr. snd s' = snd s @ tr \<and> fatal_last tr (isl r)"
proof -
  obtain rp s1 where sd: "send srv (GetChildren page_id []) s = (rp, s1)" by (metis surj_pair)
  have one: "snd s1 = snd s @ [(GetChildren page_id [], rp)]" by (rule send_ext[OF sd])
  from assms have "(s' = s1 \<and> isl r)
      \<or> (\<exists>blocks. delete_each srv blocks s1 = (r, s') \<and> answered (GetChildren page_id [], rp))"
    unfolding delete_all_blocks_def sd
    by (auto split: reply.splits sum.splits option.splits simp: answered_simps dest: inl_isl)
  then show ?thesis
  proof
    assume "s' = s1 \<and> isl r"
    then show ?thesis using ext_stop[OF one, of "isl r"] by simp
  next
    assume "\<exists>blocks. delete_each srv blocks s1 = (r, s') \<and> answered (GetChildren page_id [], rp)"
    then obtain blocks where b: "delete_each srv blocks s1 = (r, s')"
      "answered (GetChildren page_id [], rp)" by blast
    from ext_go[OF one b(2) delete_each_fatal[OF b(1)]] show ?thesis .
  qed
qed

lemma append_batches_fatal:
  "append_batches srv page_id new_blocks i s = (r, s') \<Longrightarrow>
   \<exists>tr. snd s' = snd s @ tr \<and> fatal_last tr (isl r)"
proof (induction srv page_id new_blocks i s rule: append_batches.induct)
  case (1 srv page_id new_blocks i s)
  show ?case
  proof (cases "i < length new_blocks")
    case False
    with "1.prems" have "s' = s" by auto
    then show ?thesis using ext_nil[of s "isl r"] by simp
  next
    case True
    let ?rq = "PatchChildren page_id (slice i (i + 100) new_blocks)"
    obtain rp s1 where sd: "send srv ?rq s = (rp, s1)" by (metis surj_pair)
    have one: "snd s1 = snd s @ [(?rq, rp)]" by (rule send_ext[OF sd])
    have st: "s' = s1 \<Longrightarrow> isl r \<Longrightarrow> ?thesis" using ext_stop[OF one] by simp
    show ?thesis
    proof (cases rp)
      case NoReply
      with "1.prems" True sd have "s' = s1" "isl r" by auto
      then show ?thesis by (rule st)
    next
      case (Response status body)
      show ?thesis
      proof (cases "raise_for_status status")
        case (Inl e)
        with "1.prems" True sd Response have "s' = s1" "isl r" by (auto dest: inl_isl)
        then show ?thesis by (rule st)
      next
        case (Inr u)
        with "1.prems" True sd Response
        have rec: "append_batches srv page_id new_blocks (i + 100) s1 = (r, s')" by auto
        have "answered (?rq, rp)" using Response Inr by (simp add: answered_simps)
        from ext_go[OF one this "1.IH"[OF True sd[symmetric] Response Inr rec]]
        show ?thesis .
      qed
    qed
  qed
qed

lemma update_notion_page_fatal:
  assumes "update_notion_page srv page_id new_blocks s = (r, s')"
  shows "\<exists>tr. snd s' = snd s @ tr \<and> fatal_last tr (isl r)"
proof -
  obtain r1 s1 where d: "delete_all_blocks srv page_id s = (r1, s1)" by (metis surj_pair)
  note f1 = delete_all_blocks_fatal[OF d]
  show ?thesis
  proof (cases r1)
    case (Inl e)
    with assms d have "s' = s1" "r = r1" by (auto simp: update_notion_page_def)
    then show ?thesis using f1 by simp
  next
    case (Inr u)
    with assms d have "append_batches srv page_id new_blocks 0 s1 = (r, s')"
      by (auto simp: update_notion_page_def)
    from ext_seq[OF _ append_batches_fatal[OF this]] f1 Inr show ?thesis by simp
  qed
qed

lemma fetch_blocks_fatal:
  "fetch_blocks srv page_id blocks cursor s = Some y \<Longrightarrow>
   \<exists>tr. snd (snd y) = snd s @ tr \<and> fatal_last tr (isl (fst y))"
proof (induction rule: fetch_blocks.raw_induct[rotated 1, consumes 1])
  case (1 fetch_blocks srv page_id blocks start_cursor s y)
  define rq where "rq = GetChildren page_id ((ascii ''page_size'', JNum 100)
                # (if truthy start_cursor then [(ascii ''start_cursor'', start_cursor)] else []))"
  obtain rp s1 where sd: "send srv rq s = (rp, s1)" by (metis surj_pair)
  have one: "snd s1 = snd s @ [(rq, rp)]" by (rule send_ext[OF sd])
  have aw: "answered (rq, Response status body) = (raise_for_status status = Inr ())" for status body
    by (simp add: rq_def answered_simps)
  from "1"(2)[folded rq_def] have "(snd y = s1 \<and> (isl (fst y) \<or> answered (rq, rp)))
      \<or> (\<exists>b c. fetch_blocks srv page_id b c s1 = Some y \<and> answered (rq, rp))"
    unfolding sd
    by (auto split: reply.splits sum.splits option.splits if_splits simp: aw dest: inl_isl)
  then show ?case
  proof
    assume "snd y = s1 \<and> (isl (fst y) \<or> answered (rq, rp))"
    then show ?thesis using ext_stop[OF one, of "isl (fst y)"] by simp
  next
    assume "\<exists>b c. fetch_blocks srv page_id b c s1 = Some y \<and> answered (rq, rp)"
    then obtain b c where b: "fetch_blocks srv page_id b c s1 = Some y" "answered (rq, rp)" by blast
    from ext_go[OF one b(2) "1"(1)[OF b(1)]] show ?thesis .
  qed
qed

lemma get_notion_page_content_fatal:
  assumes "get_notion_page_content srv page_id s = Some (r, s')"
  shows "\<exists>tr. snd s' = snd s @ tr \<and> fatal_last tr (isl r)"
proof -
  from assms obtain y where y: "fetch_blocks srv page_id [] JNull s = Some y" and s': "snd y = s'"
    and r: "isl (fst y) \<longrightarrow> isl r"
    by (auto simp: get_notion_page_content_def split: option.splits prod.splits sum.splits)
  from fetch_blocks_fatal[OF y] s' r show ?thesis
    by (auto simp: fatal_last_def)
qed

lemma check_pr_exists_fatal:
  assumes "check_pr_exists_in_database srv database_id url s = (r, s')"
  shows "\<exists>tr. snd s' = snd s @ tr \<and> fatal_last tr (isl r)"
proof -
  obtain rp s1 where sd: "send srv (QueryDatabase database_id (exists_payload url)) s = (rp, s1)"
    by (metis surj_pair)
  have one: "snd s1 = snd s @ [(QueryDatabase database_id (exists_payload url), rp)]"
    by (rule send_ext[OF sd])
  from assms have "s' = s1 \<and> (isl r \<or> answered (QueryDatabase database_id (exists_payload url), rp))"
    unfolding check_pr_exists_in_database_def sd
    by (auto split: reply.splits sum.splits option.splits simp: answered_simps dest: inl_isl)
  then show ?thesis using ext_stop[OF one, of "isl r"] by simp
qed

lemma add_pr_fatal:
  assumes "add_pr_to_database srv database_id pr prefix s = (r, s')"
  shows "\<exists>tr. snd s' = snd s @ tr \<and> fatal_last tr (isl r)"
proof -
  obtain rp s1 where sd: "send srv (CreatePage (row_payload database_id pr prefix)) s = (rp, s1)"
    by (metis surj_pair)
  have one: "snd s1 = snd s @ [(CreatePage (row_payload database_id pr prefix), rp)]"
    by (rule send_ext[OF sd])
  from assms have "s' = s1 \<and> (isl r \<or> answered (CreatePage (row_payload database_id pr prefix), rp))"
    unfolding add_pr_to_database_def sd
    by (auto split: reply.splits sum.splits option.splits simp: answered_simps dest: inl_isl)
  then show ?thesis using ext_stop[OF one, of "isl r"] by simp
qed

lemma track_pr_fatal:
  assumes "track_pr srv pr_database_id pr prefix s = (r, s')"
  shows "\<exists>tr. snd s' = snd s @ tr \<and> fatal_last tr (isl r)"
proof (cases "pr_database_id \<noteq> None \<and> pr_database_id \<noteq> Some []")
  case False
  with assms have "s' = s" by (auto simp: track_pr_def)
  then show ?thesis using ext_nil[of s "isl r"] by simp
next
  case True
  obtain r1 s1 where c: "check_pr_exists_in_database srv (the pr_database_id) (pr_url pr) s = (r1, s1)"
    by (metis surj_pair)
  note f1 = check_pr_exists_fatal[OF c]
  show ?thesis
  proof (cases r1)
    case (Inl e)
    with assms True c have "s' = s1" "isl r" by (auto simp: track_pr_def)
    then show ?thesis using f1 Inl by simp
  next
    case (Inr found)
    show ?thesis
    proof (cases found)
      case True
      with assms \<open>pr_database_id \<noteq> None \<and> pr_database_id \<noteq> Some []\<close> c Inr
      have "s' = s1" "r = Inr ()" by (auto simp: track_pr_def)
      then show ?thesis using f1 Inr by simp
    next
      case False
      obtain r2 s2 where ad: "add_pr_to_database srv (the pr_database_id) pr prefix s1 = (r2, s2)"
        by (metis surj_pair)
      with assms \<open>pr_database_id \<noteq> None \<and> pr_database_id \<noteq> Some []\<close> c Inr False
      have "s' = s2" "isl r = isl r2" by (auto simp: track_pr_def split: sum.splits)
      with ext_seq[OF _ add_pr_fatal[OF ad]] f1 Inr show ?thesis by simp
    qed
  qed
qed

text \<open>
  Failed calls in a run. In every run that returns, each exchange with the store but the
  last was one the program accepts: the call returned a response, and unless it was a
  delete call the status was not an error status. So a listing, an append, an existence
  query or an insertion that fails, and a delete call that raises, is the last call of
  its run: nothing is retried and nothing follows. And a run that ends well has no such
  failed exchange at all. A delete call answered with an error status counts as
  accepted: the run goes on after it.
\<close>

theorem main_failed_call_is_last:
  assumes "main ul ud srv llm pr_database_id page_mapping pr s = Some (r, s')"
  shows "\<exists>tr. snd s' = snd s @ tr
     \<and> list_all answered (butlast tr)
     \<and> (isl r \<or> list_all answered tr)"
proof -
  have fin: ?thesis if "\<exists>tr. snd s' = snd s @ tr \<and> fatal_last tr (isl r)"
    using that by (auto simp: fatal_last_def)
  let ?prefix = "extract_prefix_from_branch ul (pr_branch pr)"
  show ?thesis
  proof (cases "get_page_id_for_prefix ?prefix page_mapping")
    case (Inl e)
    with assms have "s' = s" by (simp add: main_def)
    then show ?thesis using ext_nil[of s "isl r"] by (intro fin) simp
  next
    case mapped: (Inr mapped_id)
    show ?thesis
    proof (cases "format_page_id ul mapped_id")
      case (Inl e)
      with assms mapped have "s' = s" by (simp add: main_def)
      then show ?thesis using ext_nil[of s "isl r"] by (intro fin) simp
    next
      case pid: (Inr page_id)
      from assms mapped pid obtain rc s1 where
        g: "get_notion_page_content srv page_id s = Some (rc, s1)"
        by (auto simp: main_def split: option.splits)
      note f1 = get_notion_page_content_fatal[OF g]
      show ?thesis
      proof (cases rc)
        case (Inl e)
        with assms mapped pid g have "s' = s1" "isl r" by (auto simp: main_def)
        then show ?thesis using f1 Inl by (intro fin) simp
      next
        case existing: (Inr existing_content)
        then have f1': "\<exists>tr. snd s1 = snd s @ tr \<and> fatal_last tr False" using f1 by simp
        show ?thesis
        proof (cases "synthesize_with_openai llm existing_content pr")
          case (Inl e)
          with assms mapped pid g existing have "s' = s1" by (simp add: main_def)
          then show ?thesis using f1' by (intro fin) (auto simp: fatal_last_def)
        next
          case syn: (Inr synthesized_content)
          obtain ru s2 where u: "update_notion_page srv page_id
              (markdown_to_notion_blocks ud synthesized_content) s1 = (ru, s2)" by (metis surj_pair)
          note f2 = ext_seq[OF f1' update_notion_page_fatal[OF u]]
          show ?thesis
          proof (cases ru)
            case (Inl e)
            with assms mapped pid g existing syn u have "s' = s2" "isl r" by (auto simp: main_def)
            then show ?thesis using f2 Inl by (intro fin) simp
          next
            case (Inr ok)
            with assms mapped pid g existing syn u
            have tp: "track_pr srv pr_database_id pr ?prefix s2 = (r, s')"
              by (simp add: main_def)
            from f2 Inr have "\<exists>tr. snd s2 = snd s @ tr \<and> fatal_last tr False" by simp
            from ext_seq[OF this track_pr_fatal[OF tp]] show ?thesis by (rule fin)
          qed
        qed
      qed
    qed
  qed
qed

text \<open>
  A run whose listing for the replacement is answered with status 500 ends there, with
  that error; the read before it was accepted.
\<close>

theorem main_failed_call_is_last_witness:
  "main unicode_lower no_digits scripted example_llm (Some (ascii ''db'')) example_mapping example_pr
      ([example_page, Response 500 None], [])
   = Some (Inl (HTTPError 500), ([],
        [(GetChildren example_page_id [(ascii ''page_size'', JNum 100)], example_page),
         (GetChildren example_page_id [], Response 500 None)]))
   \<and> list_all answered
        (butlast [(GetChildren example_page_id [(ascii ''page_size'', JNum 100)], example_page),
                  (GetChildren example_page_id [], Response 500 None)])
   \<and> \<not> answered (GetChildren example_page_id [], Response 500 None)"
proof -
  from main_failed_call_is_last[OF example_runs(3)]
  have "list_all answered
        (butlast [(GetChildren example_page_id [(ascii ''page_size'', JNum 100)], example_page),
                  (GetChildren example_page_id [], Response 500 None)])"
    by (simp only: snd_conv append_Nil) blast
  moreover have "\<not> answered (GetChildren example_page_id [], Response 500 None)"
    by (simp add: answered_def raise_for_status_def)
  ultimately show ?thesis using example_runs(3) by (simp only:) simp
qed

end
